theory Spec2Isabelle
  imports Main "HOL-Library.Word" "HOL-Library.Char_ord"
begin

section \<open>The protocol layer of the two-valve controller (src/app/app.cpp)\<close>

text \<open>
  The embedding follows \<^verbatim>\<open>app.cpp\<close> function by function. Conventions:

  \<^item> The firmware is built for the RP2040 (\<^verbatim>\<open>pico/bootrom.h\<close>, \<^verbatim>\<open>hardware/watchdog.h\<close>), a
    32-bit ARM target: \<^verbatim>\<open>size_t\<close>, \<^verbatim>\<open>int\<close>, \<^verbatim>\<open>unsigned\<close>, \<^verbatim>\<open>long\<close> and pointers are 32 bits wide,
    \<^verbatim>\<open>long long\<close> and \<^verbatim>\<open>double\<close> are 64 bits wide, and plain \<^verbatim>\<open>char\<close> is unsigned. Bytes are
    HOL characters, ordered by their code (0 to 255), which is the unsigned comparison.
  \<^item> A NUL-terminated C string is the list of its bytes before the terminator.
  \<^item> Behaviour that C++ leaves undefined (an array index out of range, a \<^verbatim>\<open>va_arg\<close> whose
    type does not match the argument passed) is a \<open>fault\<close> value, never a silent default.
  \<^item> Calls into collaborators whose code is outside this file (valves, indicator, console,
    reset primitives) are appended to a log; what collaborators return is an input.
\<close>

subsection \<open>Faults\<close>

datatype fault = Out_Of_Bounds | Va_Arg_Mismatch

subsection \<open>Constants\<close>

type_synonym size_t = "32 word"

definition TIMEOUT_DELAY :: "64 word" where
  "TIMEOUT_DELAY = 10 * 1000 * 1000"

definition RESET_DELAY_MS :: "32 word" where
  "RESET_DELAY_MS = 100"

definition output_bufferSIZE :: size_t where
  "output_bufferSIZE = 2048"

definition RX_BUFFER_SIZE :: size_t where
  "RX_BUFFER_SIZE = 64 + 1"

definition CRLF :: string where
  "CRLF = [CHR 0x0D, CHR 0x0A]"

definition ESC :: char where
  "ESC = CHR 0x1B"

subsection \<open>The directive decoder (class Conversion, a collaborator)\<close>

text \<open>
  Only the uses of \<^verbatim>\<open>Conversion\<close> are in \<^verbatim>\<open>app.cpp\<close>; its code is not. The responder is
  therefore modelled over an arbitrary decoder: a state \<open>'c\<close> (the static object
  \<^verbatim>\<open>conversion\<close>) and its methods as functions on that state. \<open>parse\<close> is handed the
  format text after the percent sign and answers the directive's type and how many bytes of
  the format it consumed (it advances the caller's pointer). The \<open>from_\<close> methods answer a
  pointer to a rendered C string, or the null pointer (\<open>None\<close>). Enumerators of
  \<^verbatim>\<open>Conversion::Type\<close> that \<^verbatim>\<open>app.cpp\<close> does not name are \<open>OTHER\<close>.
\<close>

datatype Conversion_Type =
    UNKNOWN | PERCENT | CHARACTER | SIGNED_INT | UNSIGNED_INT
  | LONG_SIGNED_INT | LONG_UNSIGNED_INT | LONG_LONG_SIGNED_INT | LONG_LONG_UNSIGNED_INT
  | POINTER | DOUBLE | STRING | OTHER nat

record 'c Conversion =
  parse :: "'c \<Rightarrow> string \<Rightarrow> Conversion_Type \<times> nat \<times> 'c"
  from_character :: "'c \<Rightarrow> int \<Rightarrow> string option \<times> 'c"
  from_signed_int :: "'c \<Rightarrow> int \<Rightarrow> string option \<times> 'c"
  from_unsigned_int :: "'c \<Rightarrow> int \<Rightarrow> string option \<times> 'c"
  from_double :: "'c \<Rightarrow> 64 word \<Rightarrow> string option \<times> 'c"
  from_string :: "'c \<Rightarrow> string \<Rightarrow> string option \<times> 'c"

text \<open>
  The variadic arguments of \<^verbatim>\<open>respond\<close>, each tagged with the C type it was passed as
  (after the default argument promotions). A double is its 64-bit pattern.
\<close>

datatype va =
    VA_int "32 word" | VA_unsigned "32 word"
  | VA_long "32 word" | VA_unsigned_long "32 word"
  | VA_long_long "64 word" | VA_unsigned_long_long "64 word"
  | VA_pointer "32 word" | VA_double "64 word" | VA_string string

subsection \<open>The namespace statics used by the responder\<close>

record 'c globals =
  output_buffer :: "char list"
  rx_buffer :: "char list"
  conversion :: 'c
  tx_index :: size_t
  tx_sent :: size_t

text \<open>Static storage is zero-initialised: both arrays hold NUL bytes, both cursors are 0.\<close>

definition static_globals :: "'c \<Rightarrow> 'c globals" where
  "static_globals cs =
     \<lparr>output_buffer = replicate (unat output_bufferSIZE) (CHR 0x00),
      rx_buffer = replicate (unat RX_BUFFER_SIZE) (CHR 0x00),
      conversion = cs, tx_index = 0, tx_sent = 0\<rparr>"

subsection \<open>respond_putc\<close>

definition respond_putc :: "char \<Rightarrow> 'c globals \<Rightarrow> fault + (bool \<times> 'c globals)" where
  "respond_putc c g =
     (let new_index = tx_index g + 1;
          new_index = (if new_index \<ge> output_bufferSIZE then 0 else new_index)
      in if new_index = tx_sent g then Inr (False, g)
         else if unat (tx_index g) < length (output_buffer g)
         then Inr (True, g\<lparr>output_buffer := (output_buffer g)[unat (tx_index g) := c],
                            tx_index := new_index\<rparr>)
         else Inl Out_Of_Bounds)"

subsection \<open>vrespond and respond\<close>

text \<open>
  \<^verbatim>\<open>va_arg(args, T)\<close>: the next argument, which must have been passed as a \<^verbatim>\<open>T\<close>.
\<close>

fun va_arg_int :: "va list \<Rightarrow> fault + (32 word \<times> va list)" where
  "va_arg_int (VA_int v # args) = Inr (v, args)"
| "va_arg_int _ = Inl Va_Arg_Mismatch"

fun va_arg_unsigned :: "va list \<Rightarrow> fault + (32 word \<times> va list)" where
  "va_arg_unsigned (VA_unsigned v # args) = Inr (v, args)"
| "va_arg_unsigned _ = Inl Va_Arg_Mismatch"

fun va_arg_long :: "va list \<Rightarrow> fault + (32 word \<times> va list)" where
  "va_arg_long (VA_long v # args) = Inr (v, args)"
| "va_arg_long _ = Inl Va_Arg_Mismatch"

fun va_arg_unsigned_long :: "va list \<Rightarrow> fault + (32 word \<times> va list)" where
  "va_arg_unsigned_long (VA_unsigned_long v # args) = Inr (v, args)"
| "va_arg_unsigned_long _ = Inl Va_Arg_Mismatch"

fun va_arg_long_long :: "va list \<Rightarrow> fault + (64 word \<times> va list)" where
  "va_arg_long_long (VA_long_long v # args) = Inr (v, args)"
| "va_arg_long_long _ = Inl Va_Arg_Mismatch"

fun va_arg_unsigned_long_long :: "va list \<Rightarrow> fault + (64 word \<times> va list)" where
  "va_arg_unsigned_long_long (VA_unsigned_long_long v # args) = Inr (v, args)"
| "va_arg_unsigned_long_long _ = Inl Va_Arg_Mismatch"

fun va_arg_pointer :: "va list \<Rightarrow> fault + (32 word \<times> va list)" where
  "va_arg_pointer (VA_pointer v # args) = Inr (v, args)"
| "va_arg_pointer _ = Inl Va_Arg_Mismatch"

fun va_arg_double :: "va list \<Rightarrow> fault + (64 word \<times> va list)" where
  "va_arg_double (VA_double v # args) = Inr (v, args)"
| "va_arg_double _ = Inl Va_Arg_Mismatch"

fun va_arg_string :: "va list \<Rightarrow> fault + (string \<times> va list)" where
  "va_arg_string (VA_string v # args) = Inr (v, args)"
| "va_arg_string _ = Inl Va_Arg_Mismatch"

text \<open>
  One branch of the \<^verbatim>\<open>switch (type)\<close> of \<^verbatim>\<open>vrespond\<close>: fetch the argument, hand its value
  to a method of the decoder, keep the pointer it answers.
\<close>

definition with_arg ::
  "fault + ('v \<times> va list) \<Rightarrow> ('v \<Rightarrow> string option \<times> 'c) \<Rightarrow> fault + (string option \<times> va list \<times> 'c)"
where
  "with_arg fetched render =
     (case fetched of
        Inl e \<Rightarrow> Inl e
      | Inr (value, args') \<Rightarrow> (case render value of (buffer, cs') \<Rightarrow> Inr (buffer, args', cs')))"

definition vrespond_switch ::
  "'c Conversion \<Rightarrow> Conversion_Type \<Rightarrow> va list \<Rightarrow> 'c \<Rightarrow> fault + (string option \<times> va list \<times> 'c)"
where
  "vrespond_switch conv type args cs =
     (case type of
        PERCENT \<Rightarrow>
          (case from_character conv cs (of_char (CHR ''%'')) of (buffer, cs') \<Rightarrow> Inr (buffer, args, cs'))
      | CHARACTER \<Rightarrow> with_arg (va_arg_int args) (\<lambda>value. from_character conv cs (sint value))
      | SIGNED_INT \<Rightarrow> with_arg (va_arg_int args) (\<lambda>value. from_signed_int conv cs (sint value))
      | UNSIGNED_INT \<Rightarrow> with_arg (va_arg_unsigned args) (\<lambda>value. from_unsigned_int conv cs (uint value))
      | LONG_SIGNED_INT \<Rightarrow> with_arg (va_arg_long args) (\<lambda>value. from_signed_int conv cs (sint value))
      | LONG_UNSIGNED_INT \<Rightarrow>
          with_arg (va_arg_unsigned_long args) (\<lambda>value. from_unsigned_int conv cs (uint value))
      | LONG_LONG_SIGNED_INT \<Rightarrow>
          with_arg (va_arg_long_long args) (\<lambda>value. from_signed_int conv cs (sint value))
      | LONG_LONG_UNSIGNED_INT \<Rightarrow>
          with_arg (va_arg_unsigned_long_long args) (\<lambda>value. from_unsigned_int conv cs (uint value))
      | POINTER \<Rightarrow> with_arg (va_arg_pointer args) (\<lambda>value. from_unsigned_int conv cs (uint value))
      | DOUBLE \<Rightarrow> with_arg (va_arg_double args) (\<lambda>value. from_double conv cs value)
      | STRING \<Rightarrow> with_arg (va_arg_string args) (\<lambda>value. from_string conv cs value)
      | _ \<Rightarrow> Inr (None, args, cs))"

text \<open>The inner loop \<^verbatim>\<open>while (room && *buffer != '\0') room = respond_putc(*buffer++)\<close>.\<close>

fun vrespond_copy :: "bool \<Rightarrow> string \<Rightarrow> 'c globals \<Rightarrow> fault + (bool \<times> 'c globals)" where
  "vrespond_copy room [] g = Inr (room, g)"
| "vrespond_copy room (b # buffer) g =
     (if room
      then (case respond_putc b g of
              Inl e \<Rightarrow> Inl e
            | Inr (room', g') \<Rightarrow> vrespond_copy room' buffer g')
      else Inr (room, g))"

text \<open>
  The outer loop \<^verbatim>\<open>while (room && *format != '\0')\<close>. \<open>result\<close> is the local \<^verbatim>\<open>int result\<close>,
  which the source declares without an initialiser: the value it holds on entry is an
  argument of the model.
\<close>

fun vrespond_loop ::
  "'c Conversion \<Rightarrow> bool \<Rightarrow> string \<Rightarrow> va list \<Rightarrow> 32 word \<Rightarrow> 'c globals \<Rightarrow> fault + (32 word \<times> 'c globals)"
where
  "vrespond_loop conv room [] args result g = Inr (result, g)"
| "vrespond_loop conv room (c # format) args result g =
     (if \<not> room then Inr (result, g)
      else if c = CHR ''%''
      then (case parse conv (conversion g) format of
              (type, n, cs) \<Rightarrow>
                if type = UNKNOWN then Inr (result, g\<lparr>conversion := cs\<rparr>)
                else (case vrespond_switch conv type args cs of
                        Inl e \<Rightarrow> Inl e
                      | Inr (buffer, args', cs') \<Rightarrow>
                          (case (case buffer of
                                   None \<Rightarrow> Inr (room, g\<lparr>conversion := cs'\<rparr>)
                                 | Some b \<Rightarrow> vrespond_copy room b (g\<lparr>conversion := cs'\<rparr>)) of
                             Inl e \<Rightarrow> Inl e
                           | Inr (room', g') \<Rightarrow>
                               vrespond_loop conv room' (drop n format) args' result g')))
      else (case respond_putc c g of
              Inl e \<Rightarrow> Inl e
            | Inr (room', g') \<Rightarrow> vrespond_loop conv room' format args (result + 1) g'))"

definition vrespond ::
  "'c Conversion \<Rightarrow> 32 word \<Rightarrow> string \<Rightarrow> va list \<Rightarrow> 'c globals \<Rightarrow> fault + (32 word \<times> 'c globals)"
where
  "vrespond conv result0 format args g = vrespond_loop conv True format args result0 g"

definition respond ::
  "'c Conversion \<Rightarrow> 32 word \<Rightarrow> string \<Rightarrow> va list \<Rightarrow> 'c globals \<Rightarrow> fault + (32 word \<times> 'c globals)"
where
  "respond conv result0 format args g = vrespond conv result0 format args g"

text \<open>
  Every caller of \<^verbatim>\<open>respond\<close> in the file discards the returned int. The statics after the
  call do not depend on what \<^verbatim>\<open>result\<close> held on entry (lemma \<open>vrespond_loop_shift\<close> below),
  so the call sites fix that content to 0 and drop the number.
\<close>

definition respond_discard ::
  "'c Conversion \<Rightarrow> string \<Rightarrow> va list \<Rightarrow> 'c globals \<Rightarrow> fault + 'c globals"
where
  "respond_discard conv format args g =
     (case respond conv 0 format args g of Inl e \<Rightarrow> Inl e | Inr (result, g') \<Rightarrow> Inr g')"

subsection \<open>struct Parser\<close>

datatype Parser_State = COMMAND | TARGET | NEXT_VALUE | VALUE

datatype Parser_Command = NONE | STATUS | RESET | VALVE

record Parser =
  state :: Parser_State
  command :: Parser_Command
  target :: "8 word"
  index :: "8 word"
  "values" :: "16 word list"

definition NUM_VALUES :: nat where
  "NUM_VALUES = 2"

text \<open>
  The constructor's initialiser list names \<^verbatim>\<open>state\<close>, \<^verbatim>\<open>command\<close>, \<^verbatim>\<open>target\<close> and \<^verbatim>\<open>values\<close>
  (value-initialised: zeros) and does not name \<^verbatim>\<open>index\<close>: that member keeps whatever its
  storage held before, which is the argument \<open>index0\<close>.
\<close>

definition Parser_ctor :: "8 word \<Rightarrow> Parser" where
  "Parser_ctor index0 =
     \<lparr>state = COMMAND, command = NONE, target = 0, index = index0,
      values = replicate NUM_VALUES 0\<rparr>"

text \<open>
  The one instance, \<^verbatim>\<open>static Parser parser{}\<close>: an object of static storage duration is
  zero-initialised before its constructor runs.
\<close>

definition static_parser :: Parser where
  "static_parser = Parser_ctor 0"

definition Parser_reset :: "Parser \<Rightarrow> Parser" where
  "Parser_reset p =
     p\<lparr>state := COMMAND, command := NONE, target := 0, index := 0,
       values := map (\<lambda>value. 0) (values p)\<rparr>"

definition is_digit :: "char \<Rightarrow> bool" where
  "is_digit c \<longleftrightarrow> c \<ge> CHR ''0'' \<and> c \<le> CHR ''9''"

definition Ec_format :: string where
  "Ec_format = ''Ec'%c'' @ CHR 0x27 # CRLF"

definition Et_format :: string where
  "Et_format = ''Et'%c'' @ CHR 0x27 # CRLF"

text \<open>
  \<^verbatim>\<open>Parser::parse\<close>. It answers the returned bool, the parser and the statics (which change
  when an error response is queued).
\<close>

definition Parser_parse ::
  "'c Conversion \<Rightarrow> char \<Rightarrow> Parser \<Rightarrow> 'c globals \<Rightarrow> fault + (bool \<times> Parser \<times> 'c globals)"
where
  "Parser_parse conv c p g =
     (case state p of
        COMMAND \<Rightarrow>
          if c = CHR ''s'' \<or> c = CHR ''S'' then Inr (True, p\<lparr>command := STATUS\<rparr>, g)
          else if c = CHR ''r'' \<or> c = CHR ''R''
          then Inr (False, p\<lparr>command := RESET, state := NEXT_VALUE\<rparr>, g)
          else if c = CHR ''v'' \<or> c = CHR ''V''
          then Inr (False, p\<lparr>command := VALVE, state := TARGET\<rparr>, g)
          else if c > CHR '' ''
          then (case respond_discard conv Ec_format [VA_int (of_char c)] g of
                  Inl e \<Rightarrow> Inl e
                | Inr g' \<Rightarrow> Inr (False, Parser_reset p, g'))
          else Inr (False, p, g)
      | TARGET \<Rightarrow>
          if c = ESC then Inr (False, Parser_reset p, g)
          else if is_digit c
          then Inr (False, p\<lparr>target := of_char c - of_char (CHR ''0''), state := NEXT_VALUE\<rparr>, g)
          else if c > CHR '' ''
          then (case respond_discard conv Et_format [VA_int (of_char c)] g of
                  Inl e \<Rightarrow> Inl e
                | Inr g' \<Rightarrow> Inr (False, Parser_reset p, g'))
          else Inr (False, p, g)
      | NEXT_VALUE \<Rightarrow>
          if c = ESC then Inr (False, Parser_reset p, g)
          else if is_digit c
          then (if unat (index p) < length (values p)
                then Inr (False,
                          p\<lparr>values := (values p)[unat (index p) := of_char c - of_char (CHR ''0'')],
                            state := VALUE\<rparr>, g)
                else Inl Out_Of_Bounds)
          else Inr (False, p, g)
      | VALUE \<Rightarrow>
          if c = ESC then Inr (False, Parser_reset p, g)
          else if is_digit c
          then (if unat (index p) < length (values p)
                then Inr (False,
                          p\<lparr>values := (values p)[unat (index p) :=
                               (values p ! unat (index p)) * 10 + (of_char c - of_char (CHR ''0''))]\<rparr>,
                          g)
                else Inl Out_Of_Bounds)
          else if c = CHR '','' \<or> c = CHR '':''
          then (let p' = p\<lparr>index := index p + 1\<rparr>
                in if unat (index p') < length (values p')
                   then Inr (False, p'\<lparr>state := NEXT_VALUE\<rparr>, g)
                   else Inr (True, p', g))
          else Inr (True, p, g))"

subsection \<open>class App\<close>

datatype Indicator_State = CONNECTED | DISCONNECTED | VALVE0_ON | VALVE1_ON | BOTH_VALVES_ON

datatype collaborator = Indicator | Valve0 | Valve1 | Moisture0 | Moisture1 | Flow0 | Flow1

text \<open>Calls made into collaborators, with their arguments.\<close>

datatype call =
    Periodic collaborator
  | Set_state Indicator_State
  | Pulse collaborator "16 word"
  | Console_printf string "va list"
  | Reset_usb_boot "32 word" "32 word"
  | Watchdog_reboot "32 word" "32 word" "32 word"

text \<open>
  What the collaborators answer during one step: the clock, and every getter the file calls.
  The valve getters are used as conditions and as \<^verbatim>\<open>%d\<close> arguments, so they are ints that
  count as true when not 0. \<^verbatim>\<open>moisture1_.updated()\<close> is called twice in one expression; each
  call has its own answer.
\<close>

record readings =
  time_us_64 :: "64 word"
  indicator_get_state :: "32 word"
  valve0_get :: "32 word"
  valve1_get :: "32 word"
  moisture0_updated :: bool
  moisture0_value :: "32 word"
  moisture1_updated :: bool
  moisture1_value :: "32 word"
  moisture1_updated_again :: bool
  flow0_updated :: bool
  flow0_value :: "32 word"
  flow1_updated :: bool
  flow1_value :: "32 word"

record 'c App =
  statics :: "'c globals"
  parser :: Parser
  timeout :: "64 word"
  calls :: "call list"

text \<open>\<^verbatim>\<open>App::App\<close>: \<^verbatim>\<open>timeout_{0}\<close>, and both cursors set to 0.\<close>

definition App_ctor :: "'c globals \<Rightarrow> Parser \<Rightarrow> 'c App" where
  "App_ctor g p = \<lparr>statics = g\<lparr>tx_index := 0, tx_sent := 0\<rparr>, parser = p, timeout = 0, calls = []\<rparr>"

definition App_periodic :: "readings \<Rightarrow> 'c App \<Rightarrow> 'c App" where
  "App_periodic env app =
     (let valve0_on = (valve0_get env \<noteq> 0);
          valve1_on = (valve1_get env \<noteq> 0);
          new_state =
            (if valve0_on \<and> valve1_on then BOTH_VALVES_ON
             else if valve0_on then VALVE0_ON
             else if valve1_on then VALVE1_ON
             else if timeout app < time_us_64 env then DISCONNECTED
             else CONNECTED)
      in app\<lparr>calls := calls app @
                [Periodic Indicator, Periodic Valve0, Periodic Valve1, Periodic Moisture0,
                 Periodic Moisture1, Periodic Flow0, Periodic Flow1, Set_state new_state]\<rparr>)"

definition STATUS_format :: string where
  \<open>STATUS_format =
     ''R{"l":%d,"v0":%d,"v1":%d,"m0":%c%d,"m1":%c%d,"m2":%c%d,"f0":%c%d,"f1":%c%d}'' @ CRLF\<close>

definition fresh_mark :: "bool \<Rightarrow> va" where
  "fresh_mark updated = VA_int (of_char (if updated then CHR '' '' else CHR ''-''))"

definition values_0 :: "Parser \<Rightarrow> fault + 16 word" where
  "values_0 p = (if 0 < length (values p) then Inr (values p ! 0) else Inl Out_Of_Bounds)"

definition log_call :: "call \<Rightarrow> 'c App \<Rightarrow> 'c App" where
  "log_call x app = app\<lparr>calls := calls app @ [x]\<rparr>"

definition App_respond :: "'c Conversion \<Rightarrow> string \<Rightarrow> va list \<Rightarrow> 'c App \<Rightarrow> fault + 'c App" where
  "App_respond conv format args app =
     (case respond_discard conv format args (statics app) of
        Inl e \<Rightarrow> Inl e
      | Inr g' \<Rightarrow> Inr (app\<lparr>statics := g'\<rparr>))"

definition App_perform_command :: "'c Conversion \<Rightarrow> readings \<Rightarrow> 'c App \<Rightarrow> fault + 'c App" where
  "App_perform_command conv env app =
     (case command (parser app) of
        STATUS \<Rightarrow>
          App_respond conv STATUS_format
            [VA_int (indicator_get_state env), VA_int (valve0_get env), VA_int (valve1_get env),
             fresh_mark (moisture0_updated env), VA_int (moisture0_value env),
             fresh_mark (moisture1_updated env), VA_int (moisture1_value env),
             fresh_mark (moisture1_updated_again env), VA_int 0,
             fresh_mark (flow0_updated env), VA_int (flow0_value env),
             fresh_mark (flow1_updated env), VA_int (flow1_value env)]
            app
      | RESET \<Rightarrow>
          (case values_0 (parser app) of
             Inl e \<Rightarrow> Inl e
           | Inr v \<Rightarrow>
               (let app1 = log_call (Console_printf (''Reset value: %d'' @ CRLF) [VA_int (ucast v)]) app
                in if v = 5511 then Inr (log_call (Reset_usb_boot 0 0) app1)
                   else if v = 1033 then Inr (log_call (Watchdog_reboot 0 0 RESET_DELAY_MS) app1)
                   else App_respond conv (''Er%d'' @ CRLF) [VA_int (ucast v)] app1))
      | VALVE \<Rightarrow>
          (case values_0 (parser app) of
             Inl e \<Rightarrow> Inl e
           | Inr v \<Rightarrow>
               (let app1 = log_call (Console_printf (''Valve target: %d pulse: %d'' @ CRLF)
                                       [VA_int (ucast (target (parser app))), VA_int (ucast v)]) app
                in if target (parser app) = 0
                   then App_respond conv (''AV0'' @ CRLF) [] (log_call (Pulse Valve0 v) app1)
                   else if target (parser app) = 1
                   then App_respond conv (''AV1'' @ CRLF) [] (log_call (Pulse Valve1 v) app1)
                   else App_respond conv (''Ev%d'' @ CRLF) [VA_int (ucast (target (parser app)))] app1))
      | NONE \<Rightarrow> Inr app)"

text \<open>\<^verbatim>\<open>App::parse\<close>: refresh the deadline, feed the byte, dispatch and reset on completion.\<close>

definition App_parse :: "'c Conversion \<Rightarrow> readings \<Rightarrow> char \<Rightarrow> 'c App \<Rightarrow> fault + 'c App" where
  "App_parse conv env c app =
     (let app1 = app\<lparr>timeout := TIMEOUT_DELAY + time_us_64 env\<rparr>
      in case Parser_parse conv c (parser app1) (statics app1) of
           Inl e \<Rightarrow> Inl e
         | Inr (done, p', g') \<Rightarrow>
             (let app2 = app1\<lparr>parser := p', statics := g'\<rparr>
              in if done
                 then (case App_perform_command conv env app2 of
                         Inl e \<Rightarrow> Inl e
                       | Inr app3 \<Rightarrow> Inr (app3\<lparr>parser := Parser_reset (parser app3)\<rparr>))
                 else Inr app2))"

text \<open>
  \<^verbatim>\<open>App::read_done\<close>: the loop \<^verbatim>\<open>for (i = 0; i < length; ++i) parse(rx_buffer[i])\<close>, as a
  recursion on the number of iterations left. \<open>envs i\<close> holds the collaborators' answers
  during iteration \<open>i\<close>.
\<close>

fun read_done_loop ::
  "'c Conversion \<Rightarrow> (nat \<Rightarrow> readings) \<Rightarrow> nat \<Rightarrow> nat \<Rightarrow> 'c App \<Rightarrow> fault + 'c App"
where
  "read_done_loop conv envs i 0 app = Inr app"
| "read_done_loop conv envs i (Suc left) app =
     (if i < length (rx_buffer (statics app))
      then (case App_parse conv (envs i) (rx_buffer (statics app) ! i) app of
              Inl e \<Rightarrow> Inl e
            | Inr app' \<Rightarrow> read_done_loop conv envs (Suc i) left app')
      else Inl Out_Of_Bounds)"

definition App_read_done ::
  "'c Conversion \<Rightarrow> (nat \<Rightarrow> readings) \<Rightarrow> size_t \<Rightarrow> 'c App \<Rightarrow> fault + 'c App"
where
  "App_read_done conv envs len app = read_done_loop conv envs 0 (unat len) app"

text \<open>
  \<^verbatim>\<open>App::write_buffer\<close> answers a pointer into \<^verbatim>\<open>output_buffer\<close> and a size: here the index
  pointed at and the size. \<open>write_span\<close> is the bytes the transport finds there.
\<close>

definition App_write_buffer :: "'c App \<Rightarrow> size_t \<times> size_t" where
  "App_write_buffer app =
     (let g = statics app;
          send_index = tx_sent g;
          sz = (if tx_index g < tx_sent g then output_bufferSIZE - tx_sent g
                else tx_index g - tx_sent g)
      in (send_index, sz))"

definition write_span :: "'c App \<Rightarrow> string" where
  "write_span app =
     (case App_write_buffer app of
        (send_index, sz) \<Rightarrow> take (unat sz) (drop (unat send_index) (output_buffer (statics app))))"

definition write_done :: "size_t \<Rightarrow> 'c globals \<Rightarrow> 'c globals" where
  "write_done len g =
     (let new_sent = tx_sent g + len;
          new_sent = (if new_sent \<ge> output_bufferSIZE then 0 else new_sent)
      in g\<lparr>tx_sent := new_sent\<rparr>)"


subsection \<open>Notions used to state the properties of the output ring\<close>

text \<open>
  The cursors are in range and the array has its declared size. \<^verbatim>\<open>App::App\<close> establishes
  this and every operation keeps it.
\<close>

definition ring_ok :: "'c globals \<Rightarrow> bool" where
  "ring_ok g \<longleftrightarrow>
     tx_index g < output_bufferSIZE \<and> tx_sent g < output_bufferSIZE \<and>
     length (output_buffer g) = unat output_bufferSIZE"

text \<open>Occupied bytes: (write cursor - drain cursor) modulo the capacity.\<close>

definition occupied :: "'c globals \<Rightarrow> nat" where
  "occupied g =
     (unat (tx_index g) + unat output_bufferSIZE - unat (tx_sent g)) mod unat output_bufferSIZE"

text \<open>Bytes that can still be queued: one slot of the array always stays empty.\<close>

definition free :: "'c globals \<Rightarrow> nat" where
  "free g = unat output_bufferSIZE - 1 - occupied g"

text \<open>The bytes written and not yet drained, oldest first, read around the end of the array.\<close>

definition queued :: "'c globals \<Rightarrow> string" where
  "queued g =
     (if tx_sent g \<le> tx_index g
      then take (unat (tx_index g) - unat (tx_sent g)) (drop (unat (tx_sent g)) (output_buffer g))
      else drop (unat (tx_sent g)) (output_buffer g) @ take (unat (tx_index g)) (output_buffer g))"

text \<open>The write cursor after one more byte, as \<^verbatim>\<open>respond_putc\<close> computes it.\<close>

definition next_index :: "'c globals \<Rightarrow> size_t" where
  "next_index g = (if tx_index g + 1 \<ge> output_bufferSIZE then 0 else tx_index g + 1)"

text \<open>A sequence of calls of \<^verbatim>\<open>respond_putc\<close> (put) and \<^verbatim>\<open>App::write_done\<close> (advance).\<close>

datatype ring_op = Put char | Advance size_t

fun run_ops :: "ring_op list \<Rightarrow> 'c globals \<Rightarrow> fault + 'c globals" where
  "run_ops [] g = Inr g"
| "run_ops (Put c # ops) g =
     (case respond_putc c g of Inl e \<Rightarrow> Inl e | Inr (room, g') \<Rightarrow> run_ops ops g')"
| "run_ops (Advance n # ops) g = run_ops ops (write_done n g)"

text \<open>
  Along such a sequence: the number of bytes that puts accepted minus the number of bytes
  that advances declared sent, starting from \<open>b\<close>.
\<close>

fun balance :: "ring_op list \<Rightarrow> 'c globals \<Rightarrow> int \<Rightarrow> fault + int" where
  "balance [] g b = Inr b"
| "balance (Put c # ops) g b =
     (case respond_putc c g of
        Inl e \<Rightarrow> Inl e
      | Inr (room, g') \<Rightarrow> balance ops g' (if room then b + 1 else b))"
| "balance (Advance n # ops) g b = balance ops (write_done n g) (b - int (unat n))"

subsection \<open>What a render call would queue in a ring that never fills\<close>

text \<open>
  The pieces \<^verbatim>\<open>vrespond\<close> hands to \<^verbatim>\<open>respond_putc\<close>, in order, were there always room: a
  literal byte of the format, or the text the decoder answered for one directive (empty for
  the null pointer). It ends at the end of the format or at an unknown directive.
\<close>

datatype piece = Literal char | Rendered string

fun unbounded_render :: "'c Conversion \<Rightarrow> string \<Rightarrow> va list \<Rightarrow> 'c \<Rightarrow> fault + piece list" where
  "unbounded_render conv [] args cs = Inr []"
| "unbounded_render conv (c # format) args cs =
     (if c = CHR ''%''
      then (case parse conv cs format of
              (type, n, cs1) \<Rightarrow>
                if type = UNKNOWN then Inr []
                else (case vrespond_switch conv type args cs1 of
                        Inl e \<Rightarrow> Inl e
                      | Inr (buffer, args', cs2) \<Rightarrow>
                          (case unbounded_render conv (drop n format) args' cs2 of
                             Inl e \<Rightarrow> Inl e
                           | Inr ps \<Rightarrow>
                               Inr (Rendered (case buffer of None \<Rightarrow> [] | Some b \<Rightarrow> b) # ps))))
      else (case unbounded_render conv format args cs of
              Inl e \<Rightarrow> Inl e
            | Inr ps \<Rightarrow> Inr (Literal c # ps)))"

fun text_of :: "piece list \<Rightarrow> string" where
  "text_of [] = []"
| "text_of (Literal c # ps) = c # text_of ps"
| "text_of (Rendered b # ps) = b @ text_of ps"

text \<open>
  How many literal pieces are offered to the ring when \<open>room\<close> bytes are free: the literals
  that fit, and the first one that does not. Rendered text is copied and not counted; the
  call ends at the first piece that does not fit.
\<close>

fun literals_offered :: "nat \<Rightarrow> piece list \<Rightarrow> nat" where
  "literals_offered room [] = 0"
| "literals_offered room (Literal c # ps) =
     (if room = 0 then 1 else 1 + literals_offered (room - 1) ps)"
| "literals_offered room (Rendered b # ps) =
     (if length b \<le> room then literals_offered (room - length b) ps else 0)"

subsection \<open>A decoder for the directive subset of the specification\<close>

text \<open>
  Modelled from the spec: the class \<^verbatim>\<open>Conversion\<close> (its header and code are not in
  \<^verbatim>\<open>app.cpp\<close>). The specification names the directives it renders: \<^verbatim>\<open>%%\<close>, \<^verbatim>\<open>%c\<close>,
  \<^verbatim>\<open>%d\<close>/\<^verbatim>\<open>%i\<close> (signed), \<^verbatim>\<open>%u\<close> (unsigned), the length modifiers \<^verbatim>\<open>l\<close>/\<^verbatim>\<open>ll\<close> with signed and
  unsigned, \<^verbatim>\<open>%p\<close> (as an unsigned integer), \<^verbatim>\<open>%f\<close> and \<^verbatim>\<open>%s\<close>; anything else is unknown.
  Integers are rendered in decimal. How a double is rendered is not fixed there and is the
  parameter \<open>render_double\<close>. This decoder keeps no state.
\<close>

definition spec_letter :: "nat \<Rightarrow> char \<Rightarrow> Conversion_Type" where
  "spec_letter longs c =
     (if c = CHR ''d'' \<or> c = CHR ''i''
      then (if longs = 0 then SIGNED_INT else if longs = 1 then LONG_SIGNED_INT
            else LONG_LONG_SIGNED_INT)
      else if c = CHR ''u''
      then (if longs = 0 then UNSIGNED_INT else if longs = 1 then LONG_UNSIGNED_INT
            else LONG_LONG_UNSIGNED_INT)
      else if longs \<noteq> 0 then UNKNOWN
      else if c = CHR ''%'' then PERCENT
      else if c = CHR ''c'' then CHARACTER
      else if c = CHR ''p'' then POINTER
      else if c = CHR ''f'' then DOUBLE
      else if c = CHR ''s'' then STRING
      else UNKNOWN)"

definition spec_parse :: "string \<Rightarrow> Conversion_Type \<times> nat" where
  "spec_parse format =
     (case format of
        [] \<Rightarrow> (UNKNOWN, 0)
      | c # rest \<Rightarrow>
          if c = CHR ''l''
          then (case rest of
                  [] \<Rightarrow> (UNKNOWN, 1)
                | c1 # rest1 \<Rightarrow>
                    if c1 = CHR ''l''
                    then (case rest1 of [] \<Rightarrow> (UNKNOWN, 2) | c2 # rest2 \<Rightarrow> (spec_letter 2 c2, 3))
                    else (spec_letter 1 c1, 2))
          else (spec_letter 0 c, 1))"

fun decimal :: "nat \<Rightarrow> string" where
  "decimal n =
     (if n < 10 then [char_of (of_char (CHR ''0'') + n)]
      else decimal (n div 10) @ [char_of (of_char (CHR ''0'') + n mod 10)])"

declare decimal.simps [simp del]

definition signed_decimal :: "int \<Rightarrow> string" where
  "signed_decimal i = (if i < 0 then CHR ''-'' # decimal (nat (- i)) else decimal (nat i))"

definition spec_conversion :: "(64 word \<Rightarrow> string) \<Rightarrow> 'c Conversion" where
  "spec_conversion render_double =
     \<lparr>parse = (\<lambda>cs format. case spec_parse format of (type, n) \<Rightarrow> (type, n, cs)),
      from_character = (\<lambda>cs i. (Some (if i mod 256 = 0 then [] else [char_of i]), cs)),
      from_signed_int = (\<lambda>cs i. (Some (signed_decimal i), cs)),
      from_unsigned_int = (\<lambda>cs i. (Some (decimal (nat i)), cs)),
      from_double = (\<lambda>cs d. (Some (render_double d), cs)),
      from_string = (\<lambda>cs s. (Some s, cs))\<rparr>"

subsection \<open>Concrete inputs for the examples\<close>

definition no_double :: "64 word \<Rightarrow> string" where
  "no_double d = []"

definition idle :: readings where
  "idle =
     \<lparr>time_us_64 = 0, indicator_get_state = 0, valve0_get = 0, valve1_get = 0,
      moisture0_updated = False, moisture0_value = 0,
      moisture1_updated = False, moisture1_value = 0, moisture1_updated_again = False,
      flow0_updated = False, flow0_value = 0, flow1_updated = False, flow1_value = 0\<rparr>"

text \<open>The statics after the transport has stored \<open>bytes\<close> at the start of \<^verbatim>\<open>rx_buffer\<close>.\<close>

definition received :: "string \<Rightarrow> 'c globals \<Rightarrow> 'c globals" where
  "received bytes g = g\<lparr>rx_buffer := bytes @ drop (length bytes) (rx_buffer g)\<rparr>"

text \<open>A parser in state \<open>VALUE\<close> whose first accumulator holds 6553.\<close>

definition wrap_parser :: Parser where
  "wrap_parser = \<lparr>state = VALUE, command = RESET, target = 0, index = 0, values = [6553, 0]\<rparr>"

text \<open>The program right after start-up, with the decoder of the specification.\<close>

definition fresh_app :: "unit App" where
  "fresh_app = App_ctor (static_globals ()) static_parser"

text \<open>A ring with 2045 bytes queued: two more fit.\<close>

definition nearly_full :: "unit globals" where
  "nearly_full = (static_globals ())\<lparr>tx_index := 2045\<rparr>"

text \<open>Collaborators that answer the same at every iteration of a \<^verbatim>\<open>read_done\<close> loop.\<close>

definition always_idle :: "nat \<Rightarrow> readings" where
  "always_idle i = idle"

text \<open>The program when \<^verbatim>\<open>R<v>\<close> and a terminator have just been parsed.\<close>

definition reset_request :: "16 word \<Rightarrow> unit App" where
  "reset_request v =
     fresh_app\<lparr>parser := \<lparr>state = VALUE, command = RESET, target = 0, index = 0, values = [v, 0]\<rparr>\<rparr>"

text \<open>
  The program after start-up once the seven bytes \<^verbatim>\<open>V0100,\<close> and CR have been read: nothing
  dispatched, nothing queued, the parser waiting for the first digit of a second value.
\<close>

definition stuck_app :: "unit App" where
  "stuck_app =
     \<lparr>statics = (received (''V0100,'' @ [CHR 0x0D]) (static_globals ()))\<lparr>tx_index := 0, tx_sent := 0\<rparr>,
      parser = \<lparr>state = NEXT_VALUE, command = VALVE, target = 0, index = 1, values = [100, 0]\<rparr>,
      timeout = TIMEOUT_DELAY + time_us_64 (always_idle 6), calls = []\<rparr>"

section \<open>The output ring\<close>

subsection \<open>Cursor arithmetic\<close>

lemma unat_SIZE: "unat output_bufferSIZE = 2048"
  by (simp add: output_bufferSIZE_def)

lemma ring_ok_nat:
  "ring_ok g \<longleftrightarrow>
     unat (tx_index g) < 2048 \<and> unat (tx_sent g) < 2048 \<and> length (output_buffer g) = 2048"
  by (simp add: ring_ok_def word_less_nat_alt unat_SIZE)

lemma ring_okD:
  assumes "ring_ok g"
  shows "unat (tx_index g) < 2048" and "unat (tx_sent g) < 2048"
    and "length (output_buffer g) = 2048"
  using assms by (simp_all add: ring_ok_nat)

lemma unat_succ_index:
  assumes "unat (w :: 32 word) < 2048"
  shows "unat (w + 1) = unat w + 1"
  using assms by (simp add: unat_word_ariths)

lemma next_index_nat:
  assumes "ring_ok g"
  shows "unat (next_index g) = (if unat (tx_index g) = 2047 then 0 else unat (tx_index g) + 1)"
  using assms unat_succ_index[of "tx_index g"]
  by (auto simp: next_index_def ring_ok_nat word_le_nat_alt unat_SIZE)

lemma circular_distance:
  fixes w d :: nat
  assumes "w < 2048" and "d < 2048"
  shows "(w + 2048 - d) mod 2048 = (if d \<le> w then w - d else w + 2048 - d)"
proof (cases "d \<le> w")
  case True
  then obtain k where k: "w = d + k"
    using le_Suc_ex by blast
  with assms have "k < 2048" by arith
  have "w + 2048 - d = k + 2048" unfolding k by arith
  moreover have "(k + 2048) mod 2048 = k"
    using \<open>k < 2048\<close> by (simp only: mod_add_self2 mod_less)
  moreover have "w - d = k" unfolding k by arith
  ultimately show ?thesis using True by (simp only: if_True)
next
  case False
  with assms have "w + 2048 - d < 2048" by arith
  then have "(w + 2048 - d) mod 2048 = w + 2048 - d" by (rule mod_less)
  with False show ?thesis by (simp only: if_False)
qed

lemma occupied_nat:
  assumes "ring_ok g"
  shows "occupied g =
           (if unat (tx_sent g) \<le> unat (tx_index g)
            then unat (tx_index g) - unat (tx_sent g)
            else unat (tx_index g) + 2048 - unat (tx_sent g))"
  using assms circular_distance[of "unat (tx_index g)" "unat (tx_sent g)"]
  by (simp add: occupied_def ring_ok_nat unat_SIZE)

lemma occupied_le: "occupied g \<le> 2047"
proof -
  have "occupied g < 2048" by (simp add: occupied_def unat_SIZE)
  then show ?thesis by simp
qed

lemma free_plus_occupied: "free g + occupied g = 2047"
  using occupied_le[of g] by (simp add: free_def unat_SIZE)

lemma occupied_step:
  fixes w d :: nat
  assumes "w < 2048" and "d < 2048" and "(if Suc w = 2048 then 0 else Suc w) \<noteq> d"
  shows "(if d \<le> (if Suc w = 2048 then 0 else Suc w)
          then (if Suc w = 2048 then 0 else Suc w) - d
          else (if Suc w = 2048 then 0 else Suc w) + 2048 - d)
         = Suc (if d \<le> w then w - d else w + 2048 - d)"
proof (cases "Suc w = 2048")
  case True
  with assms show ?thesis by simp
next
  case False
  with assms show ?thesis by (cases "d \<le> w") simp_all
qed

subsection \<open>Storing one element in a circular list\<close>

lemma take_Suc_update:
  assumes "i < length xs"
  shows "take (Suc i) (xs[i := c]) = take i xs @ [c]"
  using assms by (simp add: take_Suc_conv_app_nth)

lemma update_last_position:
  assumes "length xs = Suc n"
  shows "xs[n := c] = take n xs @ [c]"
  using assms by (simp add: upd_conv_take_nth_drop)

lemma circular_put:
  fixes buf :: "'a list"
  assumes len: "length buf = n" and d: "d < n" and w: "w < n"
    and room: "(if Suc w = n then 0 else Suc w) \<noteq> d"
  shows "(if d \<le> (if Suc w = n then 0 else Suc w)
          then take ((if Suc w = n then 0 else Suc w) - d) (drop d (buf[w := c]))
          else drop d (buf[w := c]) @ take (if Suc w = n then 0 else Suc w) (buf[w := c]))
         = (if d \<le> w then take (w - d) (drop d buf) else drop d buf @ take w buf) @ [c]"
proof (cases "d \<le> w")
  case True
  show ?thesis
  proof (cases "Suc w = n")
    case top: True
    from room top have "d \<noteq> 0" by auto
    have "length (drop d buf) = Suc (w - d)" using len top True by simp
    then have "(drop d buf)[w - d := c] = take (w - d) (drop d buf) @ [c]"
      by (rule update_last_position)
    moreover have "drop d (buf[w := c]) = (drop d buf)[w - d := c]"
      using True by (simp add: drop_update_swap)
    ultimately show ?thesis using True top \<open>d \<noteq> 0\<close> by simp
  next
    case False
    have "w - d < length (drop d buf)" using len w True by simp
    then have "take (Suc (w - d)) ((drop d buf)[w - d := c]) = take (w - d) (drop d buf) @ [c]"
      by (rule take_Suc_update)
    moreover have "drop d (buf[w := c]) = (drop d buf)[w - d := c]"
      using True by (simp add: drop_update_swap)
    moreover have "Suc w - d = Suc (w - d)" using True by simp
    ultimately show ?thesis using True False by simp
  qed
next
  case False
  then have wd: "w < d" by simp
  with d have nt: "Suc w \<noteq> n" by simp
  with room wd have "Suc w < d" by simp
  moreover have "drop d (buf[w := c]) = drop d buf"
    using wd by (simp add: drop_update_cancel)
  moreover have "take (Suc w) (buf[w := c]) = take w buf @ [c]"
    using w len by (simp add: take_Suc_update)
  ultimately show ?thesis using False nt by simp
qed

subsection \<open>respond_putc and write_done on a well-formed ring\<close>

lemma queued_nat:
  "queued g =
     (if unat (tx_sent g) \<le> unat (tx_index g)
      then take (unat (tx_index g) - unat (tx_sent g)) (drop (unat (tx_sent g)) (output_buffer g))
      else drop (unat (tx_sent g)) (output_buffer g) @ take (unat (tx_index g)) (output_buffer g))"
  by (simp add: queued_def word_le_nat_alt)

lemma length_queued:
  assumes "ring_ok g"
  shows "length (queued g) = occupied g"
  unfolding queued_nat occupied_nat[OF assms]
  using ring_okD[OF assms] by auto

lemma full_iff:
  assumes "ring_ok g"
  shows "next_index g = tx_sent g \<longleftrightarrow> occupied g = 2047"
proof -
  have "next_index g = tx_sent g \<longleftrightarrow> unat (next_index g) = unat (tx_sent g)"
    by (simp add: word_unat_eq_iff)
  also have "\<dots> \<longleftrightarrow> occupied g = 2047"
    unfolding next_index_nat[OF assms] occupied_nat[OF assms]
    using ring_okD[OF assms] by auto
  finally show ?thesis .
qed

lemma respond_putc_full:
  assumes "ring_ok g" and "occupied g = 2047"
  shows "respond_putc c g = Inr (False, g)"
proof -
  have "next_index g = tx_sent g" using assms full_iff[of g] by blast
  then show ?thesis by (simp add: respond_putc_def next_index_def Let_def)
qed

lemma respond_putc_room:
  assumes "ring_ok g" and "occupied g < 2047"
  shows "\<exists>g'. respond_putc c g = Inr (True, g') \<and> ring_ok g' \<and> queued g' = queued g @ [c]
           \<and> occupied g' = occupied g + 1 \<and> tx_sent g' = tx_sent g
           \<and> conversion g' = conversion g \<and> rx_buffer g' = rx_buffer g
           \<and> tx_index g' = next_index g"
proof -
  define g' where
    "g' = g\<lparr>output_buffer := (output_buffer g)[unat (tx_index g) := c], tx_index := next_index g\<rparr>"
  have neq: "next_index g \<noteq> tx_sent g"
    using assms full_iff[of g] by simp
  note w = ring_okD(1)[OF assms(1)] and d = ring_okD(2)[OF assms(1)]
    and len = ring_okD(3)[OF assms(1)]
  have put: "respond_putc c g = Inr (True, g')"
    using neq w len by (simp add: respond_putc_def next_index_def Let_def g'_def)
  have nxt: "unat (next_index g) =
               (if Suc (unat (tx_index g)) = 2048 then 0 else Suc (unat (tx_index g)))"
    using next_index_nat[OF assms(1)] by simp
  have sel: "tx_index g' = next_index g" "tx_sent g' = tx_sent g"
    "output_buffer g' = (output_buffer g)[unat (tx_index g) := c]"
    "conversion g' = conversion g" "rx_buffer g' = rx_buffer g"
    by (simp_all add: g'_def)
  have ok': "ring_ok g'"
    using w d len nxt by (simp add: ring_ok_nat sel)
  have "unat (next_index g) \<noteq> unat (tx_sent g)"
    using neq by (simp add: word_unat_eq_iff)
  with nxt have nneq:
    "(if Suc (unat (tx_index g)) = 2048 then 0 else Suc (unat (tx_index g))) \<noteq> unat (tx_sent g)"
    by presburger
  have occ': "occupied g' = occupied g + 1"
    unfolding occupied_nat[OF ok'] occupied_nat[OF assms(1)] sel nxt
    by (subst occupied_step[OF w d nneq]) (rule Suc_eq_plus1)
  have q: "queued g' = queued g @ [c]"
    unfolding queued_nat sel nxt
    by (rule circular_put[OF len d w nneq])
  from put ok' q occ' sel(1,2,4,5) show ?thesis
    by (intro exI[of _ g']) simp
qed

lemma write_done_ok:
  assumes "ring_ok g"
  shows "ring_ok (write_done n g)"
  using assms
  by (simp add: write_done_def ring_ok_def Let_def not_le output_bufferSIZE_def)

subsection \<open>Sequences of puts and advances\<close>

lemma respond_putc_keeps_ok:
  assumes "ring_ok g"
  shows "\<exists>room g'. respond_putc c g = Inr (room, g') \<and> ring_ok g'"
proof (cases "occupied g = 2047")
  case True
  with assms respond_putc_full[of g c] show ?thesis by blast
next
  case False
  with occupied_le[of g] have "occupied g < 2047" by simp
  with assms respond_putc_room[of g c] show ?thesis by blast
qed

lemma run_ops_keeps_ok:
  assumes "ring_ok g"
  shows "\<exists>g'. run_ops ops g = Inr g' \<and> ring_ok g'"
  using assms
proof (induction ops arbitrary: g)
  case Nil
  then show ?case by simp
next
  case (Cons op ops)
  show ?case
  proof (cases op)
    case (Put c)
    from respond_putc_keeps_ok[OF Cons.prems, of c]
    obtain room g1 where g1: "respond_putc c g = Inr (room, g1)" "ring_ok g1" by blast
    from Cons.IH[OF g1(2)] g1(1) Put show ?thesis by simp
  next
    case (Advance n)
    from Cons.IH[OF write_done_ok[OF Cons.prems, of n]] Advance show ?thesis by simp
  qed
qed

lemma zeroed_ring_ok:
  assumes "tx_index g = 0" and "tx_sent g = 0"
    and "length (output_buffer g) = unat output_bufferSIZE"
  shows "ring_ok g"
  using assms by (simp add: ring_ok_def output_bufferSIZE_def)

lemma put_on_ok_ring:
  assumes "ring_ok g"
  shows "if next_index g = tx_sent g
         then respond_putc c g = Inr (False, g)
         else \<exists>g'. respond_putc c g = Inr (True, g') \<and> queued g' = queued g @ [c]
                \<and> tx_sent g' = tx_sent g \<and> tx_index g' = next_index g
                \<and> tx_index g' \<noteq> tx_sent g'"
proof (cases "next_index g = tx_sent g")
  case True
  with assms full_iff[of g] respond_putc_full[of g c] show ?thesis by simp
next
  case False
  with assms full_iff[of g] occupied_le[of g] have "occupied g < 2047" by simp
  from respond_putc_room[OF assms this, of c] False show ?thesis by auto
qed

lemma write_done_cursors:
  "tx_index (write_done n g) = tx_index g"
  "output_buffer (write_done n g) = output_buffer g"
  "unat (tx_sent (write_done n g)) =
     (if 2048 \<le> unat (tx_sent g + n) then 0 else unat (tx_sent g + n))"
  by (simp_all add: write_done_def Let_def word_le_nat_alt unat_SIZE)

lemma distance_after_advance:
  fixes w d m :: nat
  assumes "w < 2048" and "d < 2048" and "m < 2048"
  shows "int (if d \<le> w then w - d else w + 2048 - d) - int m
           \<le> int (if (if 2048 \<le> d + m then 0 else d + m) \<le> w
                   then w - (if 2048 \<le> d + m then 0 else d + m)
                   else w + 2048 - (if 2048 \<le> d + m then 0 else d + m))"
proof (cases "2048 \<le> d + m")
  case True
  with assms show ?thesis by (cases "d \<le> w") simp_all
next
  case False
  with assms show ?thesis by (cases "d \<le> w"; cases "d + m \<le> w") simp_all
qed

lemma occupied_write_done:
  assumes "ring_ok g"
  shows "int (occupied g) - int (unat n) \<le> int (occupied (write_done n g))"
proof (cases "unat n < 2048")
  case False
  then have "2048 \<le> int (unat n)" by linarith
  moreover have "int (occupied g) \<le> 2047" using occupied_le[of g] by linarith
  moreover have "0 \<le> int (occupied (write_done n g))" by (rule of_nat_0_le_iff)
  ultimately show ?thesis by linarith
next
  case True
  note w = ring_okD(1)[OF assms] and d = ring_okD(2)[OF assms]
  have sum: "unat (tx_sent g + n) = unat (tx_sent g) + unat n"
    using True d by (simp add: unat_word_ariths)
  have ok': "ring_ok (write_done n g)" by (rule write_done_ok[OF assms])
  show ?thesis
    unfolding occupied_nat[OF ok'] occupied_nat[OF assms] write_done_cursors sum
    by (rule distance_after_advance[OF w d True])
qed

lemma balance_below_occupied:
  assumes "ring_ok g" and "b \<le> int (occupied g)"
  shows "\<exists>g' b'. run_ops ops g = Inr g' \<and> balance ops g b = Inr b' \<and> b' \<le> int (occupied g')"
  using assms
proof (induction ops arbitrary: g b)
  case Nil
  then show ?case by simp
next
  case (Cons op ops)
  show ?case
  proof (cases op)
    case (Advance n)
    have "b - int (unat n) \<le> int (occupied (write_done n g))"
      using occupied_write_done[OF Cons.prems(1), of n] Cons.prems(2) by simp
    from Cons.IH[OF write_done_ok[OF Cons.prems(1)] this] Advance show ?thesis by simp
  next
    case (Put c)
    show ?thesis
    proof (cases "occupied g = 2047")
      case True
      from respond_putc_full[OF Cons.prems(1) True, of c] Cons.IH[OF Cons.prems] Put
      show ?thesis by simp
    next
      case False
      with occupied_le[of g] have "occupied g < 2047" by simp
      from respond_putc_room[OF Cons.prems(1) this, of c]
      obtain g1 where g1: "respond_putc c g = Inr (True, g1)" "ring_ok g1"
        "occupied g1 = occupied g + 1" by blast
      have "b + 1 \<le> int (occupied g1)" using g1(3) Cons.prems(2) by simp
      from Cons.IH[OF g1(2) this] g1(1) Put show ?thesis by simp
    qed
  qed
qed

text \<open>
  Claim C2. Start from zeroed cursors and run any sequence of puts (\<^verbatim>\<open>respond_putc\<close>) and
  advances (\<^verbatim>\<open>App::write_done\<close>, with any length). No call is undefined, and in the state
  reached: the occupied bytes number at most capacity - 1, they are the queued bytes, and
  the bytes accepted less the bytes advanced are no more than the occupied bytes; a put
  whose next write cursor would equal the drain cursor returns false and changes nothing;
  any other put returns true, leaves the drain cursor and every queued byte as they were,
  appends its byte after them, and does not land on the drain cursor.
\<close>

theorem ring_never_overfull:
  assumes "tx_index g0 = 0" and "tx_sent g0 = 0"
    and "length (output_buffer g0) = unat output_bufferSIZE"
  shows "\<exists>g b. run_ops ops g0 = Inr g \<and> balance ops g0 0 = Inr b
           \<and> b \<le> int (occupied g)
           \<and> occupied g \<le> unat output_bufferSIZE - 1 \<and> length (queued g) = occupied g
           \<and> (\<forall>c. if next_index g = tx_sent g
                    then respond_putc c g = Inr (False, g)
                    else \<exists>g'. respond_putc c g = Inr (True, g') \<and> queued g' = queued g @ [c]
                           \<and> tx_sent g' = tx_sent g \<and> tx_index g' = next_index g
                           \<and> tx_index g' \<noteq> tx_sent g')"
proof -
  have ok: "ring_ok g0" by (rule zeroed_ring_ok[OF assms])
  from balance_below_occupied[OF ok, of 0 ops]
  obtain g b where g: "run_ops ops g0 = Inr g" "balance ops g0 0 = Inr b" "b \<le> int (occupied g)"
    by auto
  from run_ops_keeps_ok[OF ok, of ops] g(1) have ok': "ring_ok g" by simp
  have "occupied g \<le> unat output_bufferSIZE - 1"
    using occupied_le[of g] by (simp add: unat_SIZE)
  moreover note length_queued[OF ok'] put_on_ok_ring[OF ok']
  ultimately show ?thesis using g by blast
qed

text \<open>Two puts, an advance by one, a put: two bytes are queued and a further put is accepted.\<close>

theorem ring_never_overfull_witness:
  "tx_index (static_globals ()) = 0 \<and> tx_sent (static_globals ()) = 0
   \<and> length (output_buffer (static_globals ())) = unat output_bufferSIZE
   \<and> (\<exists>g. run_ops [Put (CHR ''a''), Put (CHR ''b''), Advance 1, Put (CHR ''c'')] (static_globals ()) = Inr g
          \<and> balance [Put (CHR ''a''), Put (CHR ''b''), Advance 1, Put (CHR ''c'')] (static_globals ()) 0
               = Inr 2
          \<and> occupied g \<le> unat output_bufferSIZE - 1 \<and> occupied g = 2 \<and> queued g = ''bc''
          \<and> (\<exists>g'. respond_putc (CHR ''d'') g = Inr (True, g') \<and> queued g' = ''bcd''
                 \<and> tx_sent g' = tx_sent g))"
proof -
  let ?g0 = "static_globals () :: unit globals"
  let ?ops = "[Put (CHR ''a''), Put (CHR ''b''), Advance 1, Put (CHR ''c'')]"
  have h: "tx_index ?g0 = 0" "tx_sent ?g0 = 0" "length (output_buffer ?g0) = unat output_bufferSIZE"
    by (simp_all add: static_globals_def)
  from ring_never_overfull[OF h, of ?ops]
  obtain g b where g: "run_ops ?ops ?g0 = Inr g" "balance ?ops ?g0 0 = Inr b"
    "b \<le> int (occupied g)" "occupied g \<le> unat output_bufferSIZE - 1"
    and put: "\<And>c. if next_index g = tx_sent g
                 then respond_putc c g = Inr (False, g)
                 else \<exists>g'. respond_putc c g = Inr (True, g') \<and> queued g' = queued g @ [c]
                        \<and> tx_sent g' = tx_sent g \<and> tx_index g' = next_index g
                        \<and> tx_index g' \<noteq> tx_sent g'"
    by blast
  have run: "(case run_ops ?ops ?g0 of Inl e \<Rightarrow> None
             | Inr g \<Rightarrow> Some (queued g, occupied g, next_index g = tx_sent g)) = Some (''bc'', 2, False)"
    by code_simp
  with g(1) have v: "queued g = ''bc''" "occupied g = 2" "next_index g \<noteq> tx_sent g"
    by simp_all
  have "balance ?ops ?g0 0 = Inr 2"
    by (simp add: respond_putc_def write_done_def static_globals_def output_bufferSIZE_def
          Let_def word_le_nat_alt)
  moreover from put[of "CHR ''d''"] v(1,3)
  have "\<exists>g'. respond_putc (CHR ''d'') g = Inr (True, g') \<and> queued g' = ''bcd'' \<and> tx_sent g' = tx_sent g"
    by auto
  ultimately show ?thesis using h g(1,4) v by blast
qed

section \<open>The responder\<close>

subsection \<open>The loops of vrespond on a well-formed ring\<close>

lemma vrespond_copy_no_room: "vrespond_copy False b g = Inr (False, g)"
  by (cases b) simp_all

lemma vrespond_loop_no_room: "vrespond_loop conv False format args r g = Inr (r, g)"
  by (cases format) simp_all

lemma conversion_update_ring:
  "ring_ok (g\<lparr>conversion := cs\<rparr>) = ring_ok g"
  "queued (g\<lparr>conversion := cs\<rparr>) = queued g"
  "occupied (g\<lparr>conversion := cs\<rparr>) = occupied g"
  "free (g\<lparr>conversion := cs\<rparr>) = free g"
  by (simp_all add: ring_ok_def queued_def occupied_def free_def)

lemma free_zero_iff: "free g = 0 \<longleftrightarrow> occupied g = 2047"
  using free_plus_occupied[of g] by arith

lemma vrespond_copy_ring:
  assumes "ring_ok g"
  shows "\<exists>g'. vrespond_copy True b g = Inr (length b \<le> free g, g') \<and> ring_ok g'
           \<and> queued g' = queued g @ take (free g) b \<and> free g' = free g - length b
           \<and> tx_sent g' = tx_sent g \<and> conversion g' = conversion g \<and> rx_buffer g' = rx_buffer g"
  using assms
proof (induction b arbitrary: g)
  case Nil
  then show ?case by simp
next
  case (Cons c b)
  show ?case
  proof (cases "free g = 0")
    case True
    then have "occupied g = 2047" by (simp add: free_zero_iff)
    from respond_putc_full[OF Cons.prems this, of c] True Cons.prems
    show ?thesis by (simp add: vrespond_copy_no_room)
  next
    case False
    then have "occupied g < 2047" using free_plus_occupied[of g] by arith
    from respond_putc_room[OF Cons.prems this, of c]
    obtain g1 where g1: "respond_putc c g = Inr (True, g1)" "ring_ok g1"
      "queued g1 = queued g @ [c]" "occupied g1 = occupied g + 1" "tx_sent g1 = tx_sent g"
      "conversion g1 = conversion g" "rx_buffer g1 = rx_buffer g"
      by blast
    have f1: "free g1 = free g - 1"
      using g1(4) free_plus_occupied[of g] free_plus_occupied[of g1] by arith
    from Cons.IH[OF g1(2)]
    obtain g' where g': "vrespond_copy True b g1 = Inr (length b \<le> free g1, g')" "ring_ok g'"
      "queued g' = queued g1 @ take (free g1) b" "free g' = free g1 - length b"
      "tx_sent g' = tx_sent g1" "conversion g' = conversion g1" "rx_buffer g' = rx_buffer g1"
      by blast
    have room: "(length b \<le> free g1) = (length (c # b) \<le> free g)"
      using f1 False by auto
    have q: "queued g' = queued g @ take (free g) (c # b)"
      using g'(3) g1(3) f1 False by (cases "free g") simp_all
    have f: "free g' = free g - length (c # b)"
      using g'(4) f1 by simp
    have "vrespond_copy True (c # b) g = Inr (length (c # b) \<le> free g, g')"
      using g1(1) g'(1) room by simp
    with g'(2) q f g'(5,6,7) g1(5,6,7) show ?thesis by (intro exI[of _ g']) simp
  qed
qed

lemma copy_of_buffer:
  "(case buffer of None \<Rightarrow> Inr (True, g) | Some b \<Rightarrow> vrespond_copy True b g)
     = vrespond_copy True (case buffer of None \<Rightarrow> [] | Some b \<Rightarrow> b) g"
  by (cases buffer) simp_all

lemma vrespond_loop_pieces:
  assumes "ring_ok g" and "unbounded_render conv format args (conversion g) = Inr ps"
  shows "\<exists>g'. vrespond_loop conv True format args r g
                = Inr (r + of_nat (literals_offered (free g) ps), g')
           \<and> ring_ok g' \<and> queued g' = queued g @ take (free g) (text_of ps)
           \<and> tx_sent g' = tx_sent g \<and> rx_buffer g' = rx_buffer g"
  using assms
proof (induction "length format" arbitrary: format args r g ps rule: less_induct)
  case less
  show ?case
  proof (cases format)
    case Nil
    with less.prems show ?thesis by simp
  next
    case (Cons c rest)
    show ?thesis
    proof (cases "c = CHR ''%''")
      case lit: False
      from less.prems(2) Cons lit
      obtain ps' where ps': "unbounded_render conv rest args (conversion g) = Inr ps'"
        "ps = Literal c # ps'"
        by (auto split: sum.splits)
      show ?thesis
      proof (cases "free g = 0")
        case True
        then have "occupied g = 2047" by (simp add: free_zero_iff)
        from respond_putc_full[OF less.prems(1) this, of c]
        have "vrespond_loop conv True format args r g = Inr (r + 1, g)"
          using Cons lit by (simp add: vrespond_loop_no_room)
        with True ps'(2) less.prems(1) show ?thesis by simp
      next
        case False
        then have "occupied g < 2047" using free_plus_occupied[of g] by arith
        from respond_putc_room[OF less.prems(1) this, of c]
        obtain g1 where g1: "respond_putc c g = Inr (True, g1)" "ring_ok g1"
          "queued g1 = queued g @ [c]" "occupied g1 = occupied g + 1" "tx_sent g1 = tx_sent g"
          "conversion g1 = conversion g" "rx_buffer g1 = rx_buffer g"
          by blast
        have f1: "free g1 = free g - 1"
          using g1(4) free_plus_occupied[of g] free_plus_occupied[of g1] by arith
        have "length rest < length format" using Cons by simp
        from less.hyps[OF this g1(2), of args ps' "r + 1"] ps'(1) g1(6)
        obtain g' where g': "vrespond_loop conv True rest args (r + 1) g1
                               = Inr (r + 1 + of_nat (literals_offered (free g1) ps'), g')"
          "ring_ok g'" "queued g' = queued g1 @ take (free g1) (text_of ps')"
          "tx_sent g' = tx_sent g1" "rx_buffer g' = rx_buffer g1"
          by auto
        have run: "vrespond_loop conv True format args r g
                     = Inr (r + of_nat (literals_offered (free g) ps), g')"
          using Cons lit g1(1) g'(1) ps'(2) f1 False by simp
        have q: "queued g' = queued g @ take (free g) (text_of ps)"
          using g'(3) g1(3) f1 False ps'(2) by (cases "free g") simp_all
        from run g'(2) q g'(4,5) g1(5,7) show ?thesis by (intro exI[of _ g']) simp
      qed
    next
      case dir: True
      obtain type n cs1 where p: "parse conv (conversion g) rest = (type, n, cs1)"
        by (cases "parse conv (conversion g) rest") auto
      show ?thesis
      proof (cases "type = UNKNOWN")
        case True
        with less.prems Cons dir p show ?thesis
          by (simp add: conversion_update_ring)
      next
        case False
        from less.prems(2) Cons dir p False
        obtain buffer args' cs2 ps' where sw: "vrespond_switch conv type args cs1 = Inr (buffer, args', cs2)"
          and ps': "unbounded_render conv (drop n rest) args' cs2 = Inr ps'"
          "ps = Rendered (case buffer of None \<Rightarrow> [] | Some b \<Rightarrow> b) # ps'"
          by (auto split: sum.splits)
        let ?b = "case buffer of None \<Rightarrow> [] | Some b \<Rightarrow> b"
        let ?g2 = "g\<lparr>conversion := cs2\<rparr>"
        have ok2: "ring_ok ?g2" using less.prems(1) by (simp add: conversion_update_ring)
        from vrespond_copy_ring[OF ok2, of ?b]
        obtain g3 where g3: "vrespond_copy True ?b ?g2 = Inr (length ?b \<le> free g, g3)" "ring_ok g3"
          "queued g3 = queued g @ take (free g) ?b" "free g3 = free g - length ?b"
          "tx_sent g3 = tx_sent g" "conversion g3 = cs2" "rx_buffer g3 = rx_buffer g"
          by (auto simp: conversion_update_ring)
        have step: "vrespond_loop conv True format args r g
                      = vrespond_loop conv (length ?b \<le> free g) (drop n rest) args' r g3"
          using Cons dir p False sw g3(1) by (simp add: copy_of_buffer)
        show ?thesis
        proof (cases "length ?b \<le> free g")
          case fits: True
          have "length (drop n rest) < length format" using Cons by simp
          from less.hyps[OF this g3(2), of args' ps' r] ps'(1) g3(6)
          obtain g' where g': "vrespond_loop conv True (drop n rest) args' r g3
                                 = Inr (r + of_nat (literals_offered (free g3) ps'), g')"
            "ring_ok g'" "queued g' = queued g3 @ take (free g3) (text_of ps')"
            "tx_sent g' = tx_sent g3" "rx_buffer g' = rx_buffer g3"
            by auto
          have run: "vrespond_loop conv True format args r g
                       = Inr (r + of_nat (literals_offered (free g) ps), g')"
            using step fits g'(1) g3(4) ps'(2) by simp
          have q: "queued g' = queued g @ take (free g) (text_of ps)"
            using g'(3) g3(3,4) fits ps'(2) by simp
          from run g'(2) q g'(4,5) g3(5,7) show ?thesis by (intro exI[of _ g']) simp
        next
          case over: False
          have run: "vrespond_loop conv True format args r g
                       = Inr (r + of_nat (literals_offered (free g) ps), g3)"
            using step over ps'(2) by (simp add: vrespond_loop_no_room)
          have q: "queued g3 = queued g @ take (free g) (text_of ps)"
            using g3(3) over ps'(2) by simp
          from run g3(2) q g3(5,7) show ?thesis by (intro exI[of _ g3]) simp
        qed
      qed
    qed
  qed
qed

subsection \<open>The content of result on entry only shifts the returned number\<close>

lemma vrespond_loop_shift_room:
  "vrespond_loop conv True format args (r + k) g =
     (case vrespond_loop conv True format args r g of
        Inl e \<Rightarrow> Inl e
      | Inr (r', g') \<Rightarrow> Inr (r' + k, g'))"
proof (induction "length format" arbitrary: format args r g rule: less_induct)
  case less
  have continue: "vrespond_loop conv room' format' args' (r' + k) g' =
     (case vrespond_loop conv room' format' args' r' g' of
        Inl e \<Rightarrow> Inl e
      | Inr (r'', g'') \<Rightarrow> Inr (r'' + k, g''))"
    if "length format' < length format" for room' format' args' r' g'
    using less[OF that] by (cases room') (simp_all add: vrespond_loop_no_room)
  show ?case
  proof (cases format)
    case Nil
    then show ?thesis by simp
  next
    case (Cons c rest)
    show ?thesis
    proof (cases "c = CHR ''%''")
      case False
      have "length rest < length format" using Cons by simp
      from continue[OF this, of _ _ "r + 1"]
      have "vrespond_loop conv room' rest args' (r + k + 1) g' =
              (case vrespond_loop conv room' rest args' (r + 1) g' of
                 Inl e \<Rightarrow> Inl e
               | Inr (r'', g'') \<Rightarrow> Inr (r'' + k, g''))" for room' args' g'
        by (simp add: add.assoc add.commute[of k 1])
      with False Cons show ?thesis
        by (simp split: sum.splits prod.splits)
    next
      case True
      obtain type n cs where p: "parse conv (conversion g) rest = (type, n, cs)"
        by (cases "parse conv (conversion g) rest") auto
      have "length (drop n rest) < length format" using Cons by simp
      note continue[OF this]
      with True Cons p show ?thesis
        by (simp split: sum.splits prod.splits option.splits)
    qed
  qed
qed

lemma vrespond_loop_shift:
  "vrespond_loop conv room format args (r + k) g =
     (case vrespond_loop conv room format args r g of
        Inl e \<Rightarrow> Inl e
      | Inr (r', g') \<Rightarrow> Inr (r' + k, g'))"
  by (cases room) (simp_all add: vrespond_loop_shift_room vrespond_loop_no_room)

subsection \<open>Literal text before an unknown directive; what every call preserves\<close>

lemma respond_putc_conversion:
  assumes "respond_putc c g = Inr (room, g')"
  shows "conversion g' = conversion g"
  using assms by (auto simp: respond_putc_def Let_def split: if_splits)

lemma literal_prefix_then_unknown:
  assumes "CHR ''%'' \<notin> set pre" and "fst (parse conv (conversion g) rest) = UNKNOWN"
  shows "\<exists>cs. vrespond_loop conv room (pre @ CHR ''%'' # rest) args r g =
           (case vrespond_loop conv room pre args r g of
              Inl e \<Rightarrow> Inl e
            | Inr (r', g') \<Rightarrow> Inr (r', g'\<lparr>conversion := cs\<rparr>))"
  using assms
proof (induction pre arbitrary: room r g)
  case Nil
  show ?case
  proof (cases room)
    case True
    with Nil.prems(2) show ?thesis
      by (cases "parse conv (conversion g) rest") auto
  next
    case False
    then have "vrespond_loop conv room ([] @ CHR ''%'' # rest) args r g =
           (case vrespond_loop conv room [] args r g of
              Inl e \<Rightarrow> Inl e
            | Inr (r', g') \<Rightarrow> Inr (r', g'\<lparr>conversion := conversion g\<rparr>))"
      by (simp add: vrespond_loop_no_room)
    then show ?thesis ..
  qed
next
  case (Cons c pre)
  then have c: "c \<noteq> CHR ''%''" and pre: "CHR ''%'' \<notin> set pre" by auto
  show ?case
  proof (cases room)
    case False
    then have "vrespond_loop conv room ((c # pre) @ CHR ''%'' # rest) args r g =
           (case vrespond_loop conv room (c # pre) args r g of
              Inl e \<Rightarrow> Inl e
            | Inr (r', g') \<Rightarrow> Inr (r', g'\<lparr>conversion := conversion g\<rparr>))"
      by (simp add: vrespond_loop_no_room)
    then show ?thesis ..
  next
    case True
    show ?thesis
    proof (cases "respond_putc c g")
      case (Inl e)
      with True c show ?thesis by simp
    next
      case (Inr y)
      obtain room' g1 where y: "y = (room', g1)" by (cases y) auto
      from respond_putc_conversion[OF Inr[unfolded y]] Cons.prems(2)
      have "fst (parse conv (conversion g1) rest) = UNKNOWN" by simp
      from Cons.IH[OF pre this, of room' "r + 1"] True c Inr y show ?thesis by simp
    qed
  qed
qed

lemma vrespond_loop_frame:
  assumes "ring_ok g" and "vrespond_loop conv room format args r g = Inr (r', g')"
  shows "ring_ok g' \<and> tx_sent g' = tx_sent g \<and> (\<exists>t. queued g' = queued g @ t)"
  using assms
proof (induction "length format" arbitrary: format room args r g rule: less_induct)
  case less
  show ?case
  proof (cases "room \<and> format \<noteq> []")
    case False
    with less.prems show ?thesis
      by (cases format) (auto simp: vrespond_loop_no_room)
  next
    case True
    then obtain c rest where Cons: "format = c # rest" and room: room
      by (cases format) auto
    show ?thesis
    proof (cases "c = CHR ''%''")
      case lit: False
      from respond_putc_keeps_ok[OF less.prems(1), of c]
      obtain room1 g1 where g1: "respond_putc c g = Inr (room1, g1)" "ring_ok g1" by blast
      have fr: "tx_sent g1 = tx_sent g \<and> (\<exists>t. queued g1 = queued g @ t)"
      proof (cases "occupied g = 2047")
        case True
        from respond_putc_full[OF less.prems(1) this, of c] g1(1) show ?thesis by simp
      next
        case False
        with occupied_le[of g] have "occupied g < 2047" by simp
        from respond_putc_room[OF less.prems(1) this, of c] g1(1) show ?thesis by auto
      qed
      have "vrespond_loop conv room1 rest args (r + 1) g1 = Inr (r', g')"
        using less.prems(2) Cons room lit g1(1) by simp
      from less.hyps[OF _ g1(2) this] Cons
      have "ring_ok g' \<and> tx_sent g' = tx_sent g1 \<and> (\<exists>t. queued g' = queued g1 @ t)" by simp
      with fr show ?thesis by auto
    next
      case dir: True
      obtain type n cs1 where p: "parse conv (conversion g) rest = (type, n, cs1)"
        by (cases "parse conv (conversion g) rest") auto
      show ?thesis
      proof (cases "type = UNKNOWN")
        case True
        with less.prems Cons room dir p show ?thesis
          by (auto simp: conversion_update_ring)
      next
        case False
        from less.prems(2) Cons room dir p False
        obtain buffer args' cs2 where sw: "vrespond_switch conv type args cs1 = Inr (buffer, args', cs2)"
          by (auto split: sum.splits)
        let ?b = "case buffer of None \<Rightarrow> [] | Some b \<Rightarrow> b"
        let ?g2 = "g\<lparr>conversion := cs2\<rparr>"
        have ok2: "ring_ok ?g2" using less.prems(1) by (simp add: conversion_update_ring)
        from vrespond_copy_ring[OF ok2, of ?b]
        obtain g3 where g3: "vrespond_copy True ?b ?g2 = Inr (length ?b \<le> free g, g3)" "ring_ok g3"
          "queued g3 = queued g @ take (free g) ?b" "tx_sent g3 = tx_sent g"
          by (auto simp: conversion_update_ring)
        have "vrespond_loop conv (length ?b \<le> free g) (drop n rest) args' r g3 = Inr (r', g')"
          using less.prems(2) Cons room dir p False sw g3(1) by (simp add: copy_of_buffer)
        from less.hyps[OF _ g3(2) this] Cons
        have "ring_ok g' \<and> tx_sent g' = tx_sent g3 \<and> (\<exists>t. queued g' = queued g3 @ t)" by simp
        with g3(3,4) show ?thesis by auto
      qed
    qed
  qed
qed

subsection \<open>Concrete rings and formats\<close>

lemma static_globals_ring:
  "ring_ok (static_globals cs)" "queued (static_globals cs) = []"
  "occupied (static_globals cs) = 0" "free (static_globals cs) = 2047"
  "conversion (static_globals cs) = cs" "tx_sent (static_globals cs) = 0"
  by (simp_all add: static_globals_def ring_ok_def queued_def occupied_def free_def
        output_bufferSIZE_def)

lemma nearly_full_ring:
  "ring_ok nearly_full" "occupied nearly_full = 2045" "free nearly_full = 2"
  "conversion nearly_full = ()" "tx_sent nearly_full = 0"
  by (simp_all add: nearly_full_def static_globals_def ring_ok_def occupied_def free_def
        output_bufferSIZE_def)

lemma render_AV0:
  "unbounded_render conv (''AV0'' @ CRLF) [] cs
     = Inr [Literal (CHR ''A''), Literal (CHR ''V''), Literal (CHR ''0''),
            Literal (CHR 0x0D), Literal (CHR 0x0A)]"
  by (simp add: CRLF_def)

lemma decimal_42: "decimal 42 = ''42''"
  by code_simp

lemma render_Er42:
  "unbounded_render (spec_conversion rd) (''Er%d'' @ CRLF) [VA_int 42] cs
     = Inr [Literal (CHR ''E''), Literal (CHR ''r''), Rendered ''42'',
            Literal (CHR 0x0D), Literal (CHR 0x0A)]"
  by (simp add: CRLF_def spec_conversion_def spec_parse_def spec_letter_def
        vrespond_switch_def with_arg_def signed_decimal_def decimal_42)

subsection \<open>respond as its callers use it\<close>

lemma respond_discard_pieces:
  assumes "ring_ok g" and "unbounded_render conv format args (conversion g) = Inr ps"
  shows "\<exists>g'. respond_discard conv format args g = Inr g' \<and> ring_ok g'
           \<and> queued g' = queued g @ take (free g) (text_of ps)
           \<and> tx_sent g' = tx_sent g \<and> rx_buffer g' = rx_buffer g"
proof -
  from vrespond_loop_pieces[OF assms, of 0]
  obtain g' where "vrespond_loop conv True format args 0 g
                     = Inr (0 + of_nat (literals_offered (free g) ps), g')"
    "ring_ok g'" "queued g' = queued g @ take (free g) (text_of ps)"
    "tx_sent g' = tx_sent g" "rx_buffer g' = rx_buffer g"
    by blast
  then show ?thesis
    by (intro exI[of _ g']) (simp add: respond_discard_def respond_def vrespond_def)
qed

lemma sint_ucast_16_32: "sint (ucast (v :: 16 word) :: 32 word) = int (unat v)"
proof -
  have "uint (ucast v :: 32 word) = uint v"
    by (rule uint_up_ucast) (simp add: is_up)
  moreover have "uint v < 2 ^ 16" using uint_bounded[of v] by simp
  then have "uint v < 2 ^ 31" by simp
  moreover have "0 \<le> uint v" by simp
  then have "- (2 ^ 31) \<le> uint v" by (rule order_trans[rotated]) simp
  ultimately have "sint (ucast v :: 32 word) = uint v"
    by (simp add: sint_uint signed_take_bit_int_eq_self)
  then show ?thesis by (simp only: uint_nat)
qed

lemma render_Er:
  "unbounded_render (spec_conversion rd) (''Er%d'' @ CRLF) [VA_int (ucast (v :: 16 word))] cs
     = Inr [Literal (CHR ''E''), Literal (CHR ''r''), Rendered (decimal (unat v)),
            Literal (CHR 0x0D), Literal (CHR 0x0A)]"
  by (simp add: CRLF_def spec_conversion_def spec_parse_def spec_letter_def
        vrespond_switch_def with_arg_def signed_decimal_def sint_ucast_16_32)

subsection \<open>Unknown directives, a full ring, the returned number\<close>

text \<open>
  Claim C3. When the loop of \<^verbatim>\<open>vrespond\<close>, in whatever state it is (any arguments left, any
  counter, any ring), meets a percent sign followed by text that the decoder classifies
  \<open>UNKNOWN\<close>, the call returns at once: the output array and both cursors are as they
  were at that moment, so every byte queued before stays queued and nothing is appended.
  In particular a format made of literal text, then an unknown directive, then anything,
  leaves the same ring and returns the same number as the literal text alone.
\<close>

theorem unknown_directive_aborts:
  assumes "fst (parse conv (conversion g) rest) = UNKNOWN"
  shows "(\<exists>g'. vrespond_loop conv True (CHR ''%'' # rest) args result g = Inr (result, g')
            \<and> output_buffer g' = output_buffer g \<and> tx_index g' = tx_index g
            \<and> tx_sent g' = tx_sent g \<and> queued g' = queued g)
       \<and> (CHR ''%'' \<notin> set pre \<longrightarrow>
            (\<exists>cs. vrespond conv result (pre @ CHR ''%'' # rest) args g =
               (case vrespond conv result pre args g of
                  Inl e \<Rightarrow> Inl e
                | Inr (r, g') \<Rightarrow> Inr (r, g'\<lparr>conversion := cs\<rparr>))))"
proof -
  obtain type n cs where p: "parse conv (conversion g) rest = (type, n, cs)"
    by (cases "parse conv (conversion g) rest") auto
  with assms have "type = UNKNOWN" by simp
  with p have "vrespond_loop conv True (CHR ''%'' # rest) args result g
                 = Inr (result, g\<lparr>conversion := cs\<rparr>)"
    by simp
  moreover have "queued (g\<lparr>conversion := cs\<rparr>) = queued g"
    by (simp add: conversion_update_ring)
  ultimately have first: "\<exists>g'. vrespond_loop conv True (CHR ''%'' # rest) args result g = Inr (result, g')
            \<and> output_buffer g' = output_buffer g \<and> tx_index g' = tx_index g
            \<and> tx_sent g' = tx_sent g \<and> queued g' = queued g"
    by simp
  from literal_prefix_then_unknown[OF _ assms, of pre True args result] first
  show ?thesis by (simp add: vrespond_def)
qed


text \<open>\<^verbatim>\<open>"ab%zcd"\<close> queues \<^verbatim>\<open>ab\<close> and nothing of \<^verbatim>\<open>cd\<close>.\<close>

theorem unknown_directive_aborts_witness:
  "fst (parse (spec_conversion no_double) (conversion (static_globals ())) ''zcd'') = UNKNOWN
   \<and> CHR ''%'' \<notin> set ''ab''
   \<and> (\<exists>g'. vrespond (spec_conversion no_double) 7 (''ab'' @ CHR ''%'' # ''zcd'') [] (static_globals ())
               = Inr (9, g')
          \<and> queued g' = ''ab'')"
proof -
  let ?conv = "spec_conversion no_double :: unit Conversion"
  let ?g = "static_globals () :: unit globals"
  have h: "fst (parse ?conv (conversion ?g) ''zcd'') = UNKNOWN"
    by (simp add: spec_conversion_def spec_parse_def spec_letter_def)
  have pre: "CHR ''%'' \<notin> set ''ab''" by simp
  have "unbounded_render ?conv ''ab'' [] (conversion ?g) = Inr [Literal (CHR ''a''), Literal (CHR ''b'')]"
    by simp
  from vrespond_loop_pieces[OF static_globals_ring(1) this, of 7]
  obtain g1 where g1: "vrespond ?conv 7 ''ab'' [] ?g = Inr (9, g1)" "queued g1 = ''ab''"
    by (auto simp: vrespond_def static_globals_ring)
  from unknown_directive_aborts[OF h, of "[]" 7 "''ab''"] pre g1(1)
  obtain cs where "vrespond ?conv 7 (''ab'' @ CHR ''%'' # ''zcd'') [] ?g
                     = Inr (9, g1\<lparr>conversion := cs\<rparr>)"
    by auto
  moreover have "queued (g1\<lparr>conversion := cs\<rparr>) = ''ab''"
    using g1(2) by (simp add: conversion_update_ring)
  ultimately show ?thesis using h pre by blast
qed

text \<open>
  Claim C4. A render call on a well-formed ring never reports an error for lack of room and
  never tries again: whenever it returns, the drain cursor \<^verbatim>\<open>tx_sent\<close> is unchanged and the
  bytes that were queued are still queued, in place, followed by what the call appended.
  What it appends is exactly the first \<open>free\<close> bytes of the text it would have queued in
  a ring that never fills: rendering stops at the byte where the ring became full.
\<close>

theorem full_ring_truncates:
  assumes "ring_ok g"
  shows "(\<forall>result g'. vrespond conv result0 format args g = Inr (result, g') \<longrightarrow>
            ring_ok g' \<and> tx_sent g' = tx_sent g \<and> (\<exists>t. queued g' = queued g @ t))
       \<and> (\<forall>ps. unbounded_render conv format args (conversion g) = Inr ps \<longrightarrow>
            (\<exists>result g'. vrespond conv result0 format args g = Inr (result, g')
               \<and> queued g' = queued g @ take (free g) (text_of ps)
               \<and> occupied g' = min (unat output_bufferSIZE - 1) (occupied g + length (text_of ps))))"
proof -
  have frame: "\<forall>result g'. vrespond conv result0 format args g = Inr (result, g') \<longrightarrow>
            ring_ok g' \<and> tx_sent g' = tx_sent g \<and> (\<exists>t. queued g' = queued g @ t)"
    using vrespond_loop_frame[OF assms] by (simp add: vrespond_def)
  have exact: "\<exists>result g'. vrespond conv result0 format args g = Inr (result, g')
               \<and> queued g' = queued g @ take (free g) (text_of ps)
               \<and> occupied g' = min (unat output_bufferSIZE - 1) (occupied g + length (text_of ps))"
    if "unbounded_render conv format args (conversion g) = Inr ps" for ps
  proof -
    from vrespond_loop_pieces[OF assms that, of result0]
    obtain g' where g': "vrespond_loop conv True format args result0 g
                           = Inr (result0 + of_nat (literals_offered (free g) ps), g')"
      "ring_ok g'" "queued g' = queued g @ take (free g) (text_of ps)"
      by blast
    have "occupied g' = length (queued g')" using length_queued[OF g'(2)] by simp
    also have "\<dots> = occupied g + min (length (text_of ps)) (free g)"
      using g'(3) length_queued[OF assms] by simp
    also have "\<dots> = min (unat output_bufferSIZE - 1) (occupied g + length (text_of ps))"
      using free_plus_occupied[of g] by (simp add: unat_SIZE min_def)
    finally have "occupied g' = min (unat output_bufferSIZE - 1) (occupied g + length (text_of ps))" .
    with g'(1,3) show ?thesis by (auto simp: vrespond_def)
  qed
  from frame exact show ?thesis by blast
qed


text \<open>With room for two bytes, \<^verbatim>\<open>"AV0\r\n"\<close> queues \<^verbatim>\<open>AV\<close> and fills the ring.\<close>

theorem full_ring_truncates_witness:
  "ring_ok nearly_full
   \<and> (\<exists>result g'. vrespond (spec_conversion no_double) 0 (''AV0'' @ CRLF) [] nearly_full = Inr (result, g')
          \<and> queued g' = queued nearly_full @ ''AV'' \<and> occupied g' = 2047
          \<and> tx_sent g' = tx_sent nearly_full \<and> ring_ok g')"
proof -
  let ?conv = "spec_conversion no_double :: unit Conversion"
  note inst = full_ring_truncates[OF nearly_full_ring(1), of ?conv 0 "''AV0'' @ CRLF" "[]"]
  from inst render_AV0[of ?conv "conversion nearly_full"]
  obtain result g' where g': "vrespond ?conv 0 (''AV0'' @ CRLF) [] nearly_full = Inr (result, g')"
    "queued g' = queued nearly_full @ take (free nearly_full) (text_of
        [Literal (CHR ''A''), Literal (CHR ''V''), Literal (CHR ''0''),
         Literal (CHR 0x0D), Literal (CHR 0x0A)])"
    "occupied g' = min (unat output_bufferSIZE - 1) (occupied nearly_full + length (text_of
        [Literal (CHR ''A''), Literal (CHR ''V''), Literal (CHR ''0''),
         Literal (CHR 0x0D), Literal (CHR 0x0A)]))"
    by blast
  from inst g'(1) have fr: "ring_ok g'" "tx_sent g' = tx_sent nearly_full" by blast+
  have "queued g' = queued nearly_full @ ''AV''"
    using g'(2) by (simp add: nearly_full_ring)
  moreover have "occupied g' = 2047"
    using g'(3) by (simp add: nearly_full_ring unat_SIZE)
  ultimately show ?thesis using g'(1) fr nearly_full_ring(1) by blast
qed

text \<open>
  Claim C10. \<^verbatim>\<open>vrespond\<close>, and \<^verbatim>\<open>respond\<close> which returns its value, return a number built on
  the content that the local \<^verbatim>\<open>result\<close> happened to hold on entry (it has no initialiser):
  in every call, a different content shifts the returned number by the same amount and
  changes nothing else. On a well-formed ring the number is that content plus the number
  of literal format bytes offered to the ring; bytes rendered for a directive are not
  counted. So the returned number is as indeterminate as the uninitialised variable.
\<close>

theorem vrespond_result_uninitialised:
  "(\<forall>result0 k.
      vrespond conv (result0 + k) format args g =
        (case vrespond conv result0 format args g of
           Inl e \<Rightarrow> Inl e
         | Inr (result, g') \<Rightarrow> Inr (result + k, g'))
      \<and> respond conv result0 format args g = vrespond conv result0 format args g)
   \<and> (ring_ok g \<and> unbounded_render conv format args (conversion g) = Inr ps \<longrightarrow>
        (\<exists>g'. \<forall>result0.
           vrespond conv result0 format args g
             = Inr (result0 + of_nat (literals_offered (free g) ps), g')))"
proof -
  have shift: "vrespond conv (result0 + k) format args g =
        (case vrespond conv result0 format args g of
           Inl e \<Rightarrow> Inl e
         | Inr (result, g') \<Rightarrow> Inr (result + k, g'))" for result0 k
    unfolding vrespond_def by (rule vrespond_loop_shift)
  have same: "respond conv result0 format args g = vrespond conv result0 format args g" for result0
    by (simp add: respond_def)
  have exact: "\<exists>g'. \<forall>result0.
           vrespond conv result0 format args g
             = Inr (result0 + of_nat (literals_offered (free g) ps), g')"
    if ok: "ring_ok g" and r: "unbounded_render conv format args (conversion g) = Inr ps"
  proof -
    from vrespond_loop_pieces[OF ok r, of 0]
    obtain g' where g': "vrespond_loop conv True format args 0 g
                           = Inr (0 + of_nat (literals_offered (free g) ps), g')"
      by blast
    have "vrespond_loop conv True format args result0 g
            = Inr (result0 + of_nat (literals_offered (free g) ps), g')" for result0
      using vrespond_loop_shift[of conv True format args 0 result0 g] g' by (simp add: add.commute)
    then show ?thesis by (auto simp: vrespond_def)
  qed
  from shift same exact show ?thesis by blast
qed

text \<open>\<^verbatim>\<open>"Er%d\r\n"\<close> with 42 queues six bytes and adds four to the content of \<^verbatim>\<open>result\<close>.\<close>

theorem vrespond_result_uninitialised_witness:
  "ring_ok (static_globals ())
   \<and> unbounded_render (spec_conversion no_double) (''Er%d'' @ CRLF) [VA_int 42]
        (conversion (static_globals ()))
       = Inr [Literal (CHR ''E''), Literal (CHR ''r''), Rendered ''42'',
              Literal (CHR 0x0D), Literal (CHR 0x0A)]
   \<and> (\<exists>g'. \<forall>result0.
          vrespond (spec_conversion no_double) result0 (''Er%d'' @ CRLF) [VA_int 42] (static_globals ())
            = Inr (result0 + 4, g'))"
proof -
  let ?conv = "spec_conversion no_double :: unit Conversion"
  let ?g = "static_globals () :: unit globals"
  note r = render_Er42[of no_double "conversion ?g"]
  have ok: "ring_ok ?g" by (rule static_globals_ring(1))
  from vrespond_result_uninitialised[of ?conv "''Er%d'' @ CRLF" "[VA_int 42]" ?g] ok r
  have "\<exists>g'. \<forall>result0.
          vrespond ?conv result0 (''Er%d'' @ CRLF) [VA_int 42] ?g
            = Inr (result0 + of_nat (literals_offered (free ?g)
                     [Literal (CHR ''E''), Literal (CHR ''r''), Rendered ''42'',
                      Literal (CHR 0x0D), Literal (CHR 0x0A)]), g')"
    by blast
  then have "\<exists>g'. \<forall>result0.
          vrespond ?conv result0 (''Er%d'' @ CRLF) [VA_int 42] ?g = Inr (result0 + 4, g')"
    by (simp add: static_globals_ring)
  with ok r show ?thesis by blast
qed

section \<open>The command parser\<close>

lemma digit_not_ESC:
  assumes "is_digit c"
  shows "c \<noteq> ESC"
  using assms by (auto simp: is_digit_def ESC_def)

text \<open>
  Claim C5. In state \<open>VALUE\<close>, a digit byte \<open>d\<close> replaces the current accumulator
  \<open>values[index]\<close> by \<open>values[index] * 10 + d\<close> in 16-bit unsigned arithmetic: nothing
  guards the overflow, the new value is the sum modulo \<open>2^16\<close>. The parser changes in no
  other field, nothing is queued, and \<^verbatim>\<open>parse\<close> returns false.
\<close>

theorem value_digit_wraps:
  assumes "state p = VALUE" and "is_digit c" and "unat (index p) < length (values p)"
  shows "\<exists>v. Parser_parse conv c p g = Inr (False, p\<lparr>values := (values p)[unat (index p) := v]\<rparr>, g)
           \<and> unat v = (unat (values p ! unat (index p)) * 10 + (of_char c - 48)) mod 65536"
proof -
  let ?old = "values p ! unat (index p)"
  let ?digit = "of_char c - of_char (CHR ''0'') :: 16 word"
  have c: "48 \<le> (of_char c :: nat)" "(of_char c :: nat) \<le> 57"
    using assms(2) by (simp_all add: is_digit_def less_eq_char_def)
  have parse: "Parser_parse conv c p g =
                 Inr (False, p\<lparr>values := (values p)[unat (index p) := ?old * 10 + ?digit]\<rparr>, g)"
    using assms digit_not_ESC[OF assms(2)] by (simp add: Parser_parse_def)
  have "?digit = of_nat (of_char c - 48)"
    using c(1) by (simp add: of_nat_diff of_nat_of_char)
  then have "unat ?digit = (of_char c - 48) mod 65536"
    by (simp add: unat_of_nat)
  then have "unat ?digit = of_char c - 48"
    using c(2) by simp
  then have "unat (?old * 10 + ?digit) = (unat ?old * 10 + (of_char c - 48)) mod 65536"
    by (simp add: unat_word_ariths mod_simps)
  with parse show ?thesis by blast
qed

text \<open>With 6553 accumulated, the digit 6 gives 65536, stored as 0.\<close>

theorem value_digit_wraps_witness:
  "state wrap_parser = VALUE \<and> is_digit (CHR ''6'') \<and> unat (index wrap_parser) < length (values wrap_parser)
   \<and> Parser_parse (spec_conversion no_double) (CHR ''6'') wrap_parser (static_globals ())
       = Inr (False, wrap_parser\<lparr>values := [0, 0]\<rparr>, static_globals ())
   \<and> (unat (values wrap_parser ! unat (index wrap_parser)) * 10 + (of_char (CHR ''6'') - 48)) mod 65536 = 0"
proof -
  have h: "state wrap_parser = VALUE" "is_digit (CHR ''6'')"
    "unat (index wrap_parser) < length (values wrap_parser)"
    by (simp_all add: wrap_parser_def is_digit_def)
  obtain v where v: "Parser_parse (spec_conversion no_double) (CHR ''6'') wrap_parser (static_globals ())
       = Inr (False, wrap_parser\<lparr>values := (values wrap_parser)[unat (index wrap_parser) := v]\<rparr>, static_globals ())"
    "unat v = (unat (values wrap_parser ! unat (index wrap_parser)) * 10 + (of_char (CHR ''6'') - 48)) mod 65536"
    using value_digit_wraps[OF h, of "spec_conversion no_double" "static_globals ()"] by blast
  have z: "(unat (values wrap_parser ! unat (index wrap_parser)) * 10 + (of_char (CHR ''6'') - 48)) mod 65536 = 0"
    by (simp add: wrap_parser_def)
  with v(2) have "v = 0" by (simp add: unat_eq_zero)
  with v(1) have "Parser_parse (spec_conversion no_double) (CHR ''6'') wrap_parser (static_globals ())
       = Inr (False, wrap_parser\<lparr>values := [0, 0]\<rparr>, static_globals ())"
    by (simp add: wrap_parser_def)
  with h z show ?thesis by simp
qed

text \<open>
  Claim C8. The byte 27 (ESC), fed in any state other than \<open>COMMAND\<close>, puts the parser back
  in state \<open>COMMAND\<close> with command \<open>NONE\<close> (it is reset), returns false, and leaves the statics
  as they were: no response byte is queued.
\<close>

theorem esc_cancels:
  assumes "state p \<noteq> COMMAND"
  shows "Parser_parse conv (CHR 0x1B) p g = Inr (False, Parser_reset p, g)
         \<and> state (Parser_reset p) = COMMAND \<and> command (Parser_reset p) = NONE"
  using assms by (cases "state p") (simp_all add: Parser_parse_def ESC_def Parser_reset_def)

theorem esc_cancels_witness:
  "state wrap_parser \<noteq> COMMAND
   \<and> Parser_parse (spec_conversion no_double) (CHR 0x1B) wrap_parser (static_globals ())
       = Inr (False, \<lparr>state = COMMAND, command = NONE, target = 0, index = 0, values = [0, 0]\<rparr>,
              static_globals ())"
proof -
  have h: "state wrap_parser \<noteq> COMMAND" by (simp add: wrap_parser_def)
  have "Parser_reset wrap_parser = \<lparr>state = COMMAND, command = NONE, target = 0, index = 0, values = [0, 0]\<rparr>"
    by (simp add: wrap_parser_def Parser_reset_def)
  with h esc_cancels[OF h, of "spec_conversion no_double" "static_globals ()"]
  show ?thesis by simp
qed


section \<open>The controller\<close>

text \<open>
  Claim C7. On every tick (\<^verbatim>\<open>App::periodic\<close>), after polling the collaborators, the indicator
  is set by priority: both valves active, \<open>BOTH_VALVES_ON\<close>; else valve 0 active,
  \<open>VALVE0_ON\<close>; else valve 1 active, \<open>VALVE1_ON\<close>; else the deadline has elapsed
  (\<open>timeout < now\<close>), \<open>DISCONNECTED\<close>; otherwise \<open>CONNECTED\<close>.
\<close>

theorem indicator_priority:
  "\<exists>s. calls (App_periodic env app) =
          calls app @ [Periodic Indicator, Periodic Valve0, Periodic Valve1, Periodic Moisture0,
                       Periodic Moisture1, Periodic Flow0, Periodic Flow1, Set_state s]
     \<and> (valve0_get env \<noteq> 0 \<and> valve1_get env \<noteq> 0 \<longrightarrow> s = BOTH_VALVES_ON)
     \<and> (valve0_get env \<noteq> 0 \<and> valve1_get env = 0 \<longrightarrow> s = VALVE0_ON)
     \<and> (valve0_get env = 0 \<and> valve1_get env \<noteq> 0 \<longrightarrow> s = VALVE1_ON)
     \<and> (valve0_get env = 0 \<and> valve1_get env = 0 \<and> timeout app < time_us_64 env \<longrightarrow> s = DISCONNECTED)
     \<and> (valve0_get env = 0 \<and> valve1_get env = 0 \<and> \<not> timeout app < time_us_64 env \<longrightarrow> s = CONNECTED)"
  by (simp add: App_periodic_def Let_def)


theorem indicator_priority_witness:
  "calls (App_periodic (idle\<lparr>valve0_get := 1, valve1_get := 1\<rparr>) fresh_app) =
     [Periodic Indicator, Periodic Valve0, Periodic Valve1, Periodic Moisture0,
      Periodic Moisture1, Periodic Flow0, Periodic Flow1, Set_state BOTH_VALVES_ON]
   \<and> calls (App_periodic (idle\<lparr>valve0_get := 1\<rparr>) fresh_app) =
     [Periodic Indicator, Periodic Valve0, Periodic Valve1, Periodic Moisture0,
      Periodic Moisture1, Periodic Flow0, Periodic Flow1, Set_state VALVE0_ON]
   \<and> calls (App_periodic (idle\<lparr>valve1_get := 1\<rparr>) fresh_app) =
     [Periodic Indicator, Periodic Valve0, Periodic Valve1, Periodic Moisture0,
      Periodic Moisture1, Periodic Flow0, Periodic Flow1, Set_state VALVE1_ON]
   \<and> calls (App_periodic (idle\<lparr>time_us_64 := 1\<rparr>) fresh_app) =
     [Periodic Indicator, Periodic Valve0, Periodic Valve1, Periodic Moisture0,
      Periodic Moisture1, Periodic Flow0, Periodic Flow1, Set_state DISCONNECTED]
   \<and> calls (App_periodic idle fresh_app) =
     [Periodic Indicator, Periodic Valve0, Periodic Valve1, Periodic Moisture0,
      Periodic Moisture1, Periodic Flow0, Periodic Flow1, Set_state CONNECTED]"
proof -
  have fresh: "calls fresh_app = []" "timeout fresh_app = 0"
    by (simp_all add: fresh_app_def App_ctor_def)
  have both: "valve0_get (idle\<lparr>valve0_get := 1, valve1_get := 1\<rparr>) \<noteq> 0"
    "valve1_get (idle\<lparr>valve0_get := 1, valve1_get := 1\<rparr>) \<noteq> 0"
    by simp_all
  have v0: "valve0_get (idle\<lparr>valve0_get := 1\<rparr>) \<noteq> 0" "valve1_get (idle\<lparr>valve0_get := 1\<rparr>) = 0"
    by (simp_all add: idle_def)
  have v1: "valve0_get (idle\<lparr>valve1_get := 1\<rparr>) = 0" "valve1_get (idle\<lparr>valve1_get := 1\<rparr>) \<noteq> 0"
    by (simp_all add: idle_def)
  have late: "valve0_get (idle\<lparr>time_us_64 := 1\<rparr>) = 0" "valve1_get (idle\<lparr>time_us_64 := 1\<rparr>) = 0"
    "timeout fresh_app < time_us_64 (idle\<lparr>time_us_64 := 1\<rparr>)"
    by (simp_all add: idle_def fresh)
  have quiet: "valve0_get idle = 0" "valve1_get idle = 0" "\<not> timeout fresh_app < time_us_64 idle"
    by (simp_all add: idle_def fresh)
  from indicator_priority[of "idle\<lparr>valve0_get := 1, valve1_get := 1\<rparr>" fresh_app] both fresh(1)
  have 1: "calls (App_periodic (idle\<lparr>valve0_get := 1, valve1_get := 1\<rparr>) fresh_app) =
     [Periodic Indicator, Periodic Valve0, Periodic Valve1, Periodic Moisture0,
      Periodic Moisture1, Periodic Flow0, Periodic Flow1, Set_state BOTH_VALVES_ON]"
    by auto
  from indicator_priority[of "idle\<lparr>valve0_get := 1\<rparr>" fresh_app] v0 fresh(1)
  have 2: "calls (App_periodic (idle\<lparr>valve0_get := 1\<rparr>) fresh_app) =
     [Periodic Indicator, Periodic Valve0, Periodic Valve1, Periodic Moisture0,
      Periodic Moisture1, Periodic Flow0, Periodic Flow1, Set_state VALVE0_ON]"
    by auto
  from indicator_priority[of "idle\<lparr>valve1_get := 1\<rparr>" fresh_app] v1 fresh(1)
  have 3: "calls (App_periodic (idle\<lparr>valve1_get := 1\<rparr>) fresh_app) =
     [Periodic Indicator, Periodic Valve0, Periodic Valve1, Periodic Moisture0,
      Periodic Moisture1, Periodic Flow0, Periodic Flow1, Set_state VALVE1_ON]"
    by auto
  from indicator_priority[of "idle\<lparr>time_us_64 := 1\<rparr>" fresh_app] late fresh(1)
  have 4: "calls (App_periodic (idle\<lparr>time_us_64 := 1\<rparr>) fresh_app) =
     [Periodic Indicator, Periodic Valve0, Periodic Valve1, Periodic Moisture0,
      Periodic Moisture1, Periodic Flow0, Periodic Flow1, Set_state DISCONNECTED]"
    by auto
  from indicator_priority[of idle fresh_app] quiet fresh(1)
  have 5: "calls (App_periodic idle fresh_app) =
     [Periodic Indicator, Periodic Valve0, Periodic Valve1, Periodic Moisture0,
      Periodic Moisture1, Periodic Flow0, Periodic Flow1, Set_state CONNECTED]"
    by auto
  from 1 2 3 4 5 show ?thesis by (intro conjI)
qed

subsection \<open>Dispatch of RESET\<close>

lemma reset_request_fields:
  "command (parser (reset_request v)) = RESET" "values (parser (reset_request v)) = v # [0]"
  "ring_ok (statics (reset_request v))" "calls (reset_request v) = []"
  "queued (statics (reset_request v)) = []" "free (statics (reset_request v)) = 2047"
  by (simp_all add: reset_request_def fresh_app_def App_ctor_def static_globals_def ring_ok_def
        queued_def free_def occupied_def output_bufferSIZE_def)

text \<open>
  Claim C6. Dispatching a completed RESET command (for any decoder): the value 5511 calls
  \<^verbatim>\<open>reset_usb_boot(0, 0)\<close>, the firmware-update entry, and queues nothing; the value 1033
  calls \<^verbatim>\<open>watchdog_reboot(0, 0, 100)\<close>, the delayed reboot, and queues nothing. Every
  other value calls neither (only the console print that all three cases make is logged)
  and queues the error response \<^verbatim>\<open>Er<value>\r\n\<close> with the value in decimal, as far as the ring
  has room (the decoder of the specification renders \<^verbatim>\<open>%d\<close>).
\<close>

theorem reset_accepts_two_codes:
  assumes "command (parser app) = RESET" and "values (parser app) = v # vs"
    and "ring_ok (statics app)"
  shows "(v = 5511 \<longrightarrow>
            App_perform_command conv env app =
              Inr (app\<lparr>calls := calls app @
                     [Console_printf (''Reset value: %d'' @ CRLF) [VA_int 5511], Reset_usb_boot 0 0]\<rparr>))
       \<and> (v = 1033 \<longrightarrow>
            App_perform_command conv env app =
              Inr (app\<lparr>calls := calls app @
                     [Console_printf (''Reset value: %d'' @ CRLF) [VA_int 1033],
                      Watchdog_reboot 0 0 100]\<rparr>))
       \<and> (v \<noteq> 5511 \<and> v \<noteq> 1033 \<longrightarrow>
            (\<exists>g'. App_perform_command (spec_conversion render_double) env app =
                     Inr (app\<lparr>calls := calls app @
                                  [Console_printf (''Reset value: %d'' @ CRLF) [VA_int (ucast v)]],
                              statics := g'\<rparr>)
                \<and> queued g' = queued (statics app)
                                 @ take (free (statics app)) (''Er'' @ decimal (unat v) @ CRLF)
                \<and> tx_sent g' = tx_sent (statics app)))"
proof -
  have v0: "values_0 (parser app) = Inr v"
    using assms(2) by (simp add: values_0_def)
  have a: "v = 5511 \<longrightarrow>
            App_perform_command conv env app =
              Inr (app\<lparr>calls := calls app @
                     [Console_printf (''Reset value: %d'' @ CRLF) [VA_int 5511], Reset_usb_boot 0 0]\<rparr>)"
    using assms(1) v0 by (simp add: App_perform_command_def log_call_def Let_def)
  have b: "v = 1033 \<longrightarrow>
            App_perform_command conv env app =
              Inr (app\<lparr>calls := calls app @
                     [Console_printf (''Reset value: %d'' @ CRLF) [VA_int 1033],
                      Watchdog_reboot 0 0 100]\<rparr>)"
    using assms(1) v0
    by (simp add: App_perform_command_def log_call_def Let_def RESET_DELAY_MS_def)
  have c: "\<exists>g'. App_perform_command (spec_conversion render_double) env app =
                     Inr (app\<lparr>calls := calls app @
                                  [Console_printf (''Reset value: %d'' @ CRLF) [VA_int (ucast v)]],
                              statics := g'\<rparr>)
                \<and> queued g' = queued (statics app)
                                 @ take (free (statics app)) (''Er'' @ decimal (unat v) @ CRLF)
                \<and> tx_sent g' = tx_sent (statics app)"
    if other: "v \<noteq> 5511" "v \<noteq> 1033"
  proof -
    from respond_discard_pieces[OF assms(3) render_Er[of render_double v "conversion (statics app)"]]
    obtain g' where g': "respond_discard (spec_conversion render_double) (''Er%d'' @ CRLF)
                           [VA_int (ucast v)] (statics app) = Inr g'"
      "queued g' = queued (statics app) @ take (free (statics app))
                     (text_of [Literal (CHR ''E''), Literal (CHR ''r''), Rendered (decimal (unat v)),
                               Literal (CHR 0x0D), Literal (CHR 0x0A)])"
      "tx_sent g' = tx_sent (statics app)"
      by blast
    have "App_perform_command (spec_conversion render_double) env app =
            Inr (app\<lparr>calls := calls app @
                        [Console_printf (''Reset value: %d'' @ CRLF) [VA_int (ucast v)]],
                     statics := g'\<rparr>)"
      using assms(1) v0 other g'(1)
      by (simp add: App_perform_command_def log_call_def Let_def App_respond_def)
    moreover have "queued g' = queued (statics app)
                                 @ take (free (statics app)) (''Er'' @ decimal (unat v) @ CRLF)"
      using g'(2) by (simp add: CRLF_def)
    ultimately show ?thesis using g'(3) by blast
  qed
  from a b c show ?thesis by blast
qed

text \<open>5511, 1033 and 42 on the program right after start-up.\<close>

theorem reset_accepts_two_codes_witness:
  "App_perform_command (spec_conversion no_double) idle (reset_request 5511)
     = Inr ((reset_request 5511)\<lparr>calls :=
              [Console_printf (''Reset value: %d'' @ CRLF) [VA_int 5511], Reset_usb_boot 0 0]\<rparr>)
   \<and> App_perform_command (spec_conversion no_double) idle (reset_request 1033)
     = Inr ((reset_request 1033)\<lparr>calls :=
              [Console_printf (''Reset value: %d'' @ CRLF) [VA_int 1033], Watchdog_reboot 0 0 100]\<rparr>)
   \<and> (\<exists>g'. App_perform_command (spec_conversion no_double) idle (reset_request 42)
               = Inr ((reset_request 42)\<lparr>calls :=
                        [Console_printf (''Reset value: %d'' @ CRLF) [VA_int 42]], statics := g'\<rparr>)
          \<and> queued g' = ''Er42'' @ CRLF)"
proof -
  let ?conv = "spec_conversion no_double :: unit Conversion"
  note f = reset_request_fields
  from reset_accepts_two_codes[OF f(1,2,3), of 5511 ?conv idle no_double]
  have a: "App_perform_command ?conv idle (reset_request 5511)
     = Inr ((reset_request 5511)\<lparr>calls :=
              [Console_printf (''Reset value: %d'' @ CRLF) [VA_int 5511], Reset_usb_boot 0 0]\<rparr>)"
    by (simp add: f(4))
  from reset_accepts_two_codes[OF f(1,2,3), of 1033 ?conv idle no_double]
  have b: "App_perform_command ?conv idle (reset_request 1033)
     = Inr ((reset_request 1033)\<lparr>calls :=
              [Console_printf (''Reset value: %d'' @ CRLF) [VA_int 1033], Watchdog_reboot 0 0 100]\<rparr>)"
    by (simp add: f(4))
  from reset_accepts_two_codes[OF f(1,2,3), of 42 ?conv idle no_double]
  have c: "\<exists>g'. App_perform_command ?conv idle (reset_request 42)
               = Inr ((reset_request 42)\<lparr>calls :=
                        [Console_printf (''Reset value: %d'' @ CRLF) [VA_int 42]], statics := g'\<rparr>)
          \<and> queued g' = ''Er42'' @ CRLF"
    by (simp add: f(4,5,6) decimal_42 CRLF_def) blast
  from a b c show ?thesis by blast
qed

subsection \<open>Feeding a VALVE command\<close>

lemma static_parser_explicit:
  "static_parser = \<lparr>state = COMMAND, command = NONE, target = 0, index = 0, values = [0, 0]\<rparr>"
  by (simp add: static_parser_def Parser_ctor_def NUM_VALUES_def numeral_2_eq_2)

lemma received_rx:
  "rx_buffer (received bytes (static_globals cs))
     = bytes @ replicate (65 - length bytes) (CHR 0x00)"
  by (simp add: received_def static_globals_def RX_BUFFER_SIZE_def)

lemma App_parse_continue:
  assumes "Parser_parse conv c (parser app) (statics app) = Inr (False, p', g')"
  shows "App_parse conv env c app
           = Inr (app\<lparr>timeout := TIMEOUT_DELAY + time_us_64 env, parser := p', statics := g'\<rparr>)"
  using assms by (simp add: App_parse_def Let_def)

lemma parse_V:
  "Parser_parse conv (CHR ''V'') \<lparr>state = COMMAND, command = NONE, target = 0, index = 0, values = [0, 0]\<rparr> g
     = Inr (False, \<lparr>state = TARGET, command = VALVE, target = 0, index = 0, values = [0, 0]\<rparr>, g)"
  by (simp add: Parser_parse_def)

lemma parse_target_0:
  "Parser_parse conv (CHR ''0'') \<lparr>state = TARGET, command = VALVE, target = 0, index = 0, values = [0, 0]\<rparr> g
     = Inr (False, \<lparr>state = NEXT_VALUE, command = VALVE, target = 0, index = 0, values = [0, 0]\<rparr>, g)"
  by (simp add: Parser_parse_def is_digit_def ESC_def)

lemma parse_first_digit_1:
  "Parser_parse conv (CHR ''1'') \<lparr>state = NEXT_VALUE, command = VALVE, target = 0, index = 0, values = [0, 0]\<rparr> g
     = Inr (False, \<lparr>state = VALUE, command = VALVE, target = 0, index = 0, values = [1, 0]\<rparr>, g)"
  by (simp add: Parser_parse_def is_digit_def ESC_def)

lemma parse_digit_0_after_1:
  "Parser_parse conv (CHR ''0'') \<lparr>state = VALUE, command = VALVE, target = 0, index = 0, values = [1, 0]\<rparr> g
     = Inr (False, \<lparr>state = VALUE, command = VALVE, target = 0, index = 0, values = [10, 0]\<rparr>, g)"
  by (simp add: Parser_parse_def is_digit_def ESC_def)

lemma parse_digit_0_after_10:
  "Parser_parse conv (CHR ''0'') \<lparr>state = VALUE, command = VALVE, target = 0, index = 0, values = [10, 0]\<rparr> g
     = Inr (False, \<lparr>state = VALUE, command = VALVE, target = 0, index = 0, values = [100, 0]\<rparr>, g)"
  by (simp add: Parser_parse_def is_digit_def ESC_def)

lemma parse_comma_after_100:
  "Parser_parse conv (CHR '','') \<lparr>state = VALUE, command = VALVE, target = 0, index = 0, values = [100, 0]\<rparr> g
     = Inr (False, \<lparr>state = NEXT_VALUE, command = VALVE, target = 0, index = 1, values = [100, 0]\<rparr>, g)"
  by (simp add: Parser_parse_def is_digit_def ESC_def Let_def)

lemma parse_waiting_for_digit:
  assumes "state p = NEXT_VALUE" and "c \<noteq> ESC" and "\<not> is_digit c"
  shows "Parser_parse conv c p g = Inr (False, p, g)"
  using assms by (simp add: Parser_parse_def)


lemma feed_step:
  assumes "Parser_parse conv c p g = Inr (False, p', g)"
    and "i < length (rx_buffer g)" and "rx_buffer g ! i = c"
  shows "read_done_loop conv envs i (Suc left) \<lparr>statics = g, parser = p, timeout = T, calls = cl\<rparr>
           = read_done_loop conv envs (Suc i) left
               \<lparr>statics = g, parser = p', timeout = TIMEOUT_DELAY + time_us_64 (envs i), calls = cl\<rparr>"
proof -
  have "App_parse conv (envs i) c \<lparr>statics = g, parser = p, timeout = T, calls = cl\<rparr>
          = Inr \<lparr>statics = g, parser = p', timeout = TIMEOUT_DELAY + time_us_64 (envs i), calls = cl\<rparr>"
    using assms(1) by (simp add: App_parse_continue)
  with assms(2,3) show ?thesis by simp
qed

lemma feed_V0100:
  assumes rx: "rx_buffer g = ''V0100'' @ rest"
  shows "read_done_loop conv envs 0 (Suc (Suc (Suc (Suc (Suc left)))))
           \<lparr>statics = g, parser = static_parser, timeout = T, calls = cl\<rparr>
         = read_done_loop conv envs 5 left
             \<lparr>statics = g,
              parser = \<lparr>state = VALUE, command = VALVE, target = 0, index = 0, values = [100, 0]\<rparr>,
              timeout = TIMEOUT_DELAY + time_us_64 (envs 4), calls = cl\<rparr>"
proof -
  have len: "0 < length (rx_buffer g)" "Suc 0 < length (rx_buffer g)"
    "Suc (Suc 0) < length (rx_buffer g)" "Suc (Suc (Suc 0)) < length (rx_buffer g)"
    "Suc (Suc (Suc (Suc 0))) < length (rx_buffer g)"
    by (simp_all add: rx)
  have at: "rx_buffer g ! 0 = CHR ''V''" "rx_buffer g ! Suc 0 = CHR ''0''"
    "rx_buffer g ! Suc (Suc 0) = CHR ''1''" "rx_buffer g ! Suc (Suc (Suc 0)) = CHR ''0''"
    "rx_buffer g ! Suc (Suc (Suc (Suc 0))) = CHR ''0''"
    by (simp_all add: rx)
  have four: "Suc (Suc (Suc (Suc 0))) = 4" and five: "Suc 4 = 5"
    by simp_all
  have "read_done_loop conv envs 0 (Suc (Suc (Suc (Suc (Suc left)))))
           \<lparr>statics = g, parser = static_parser, timeout = T, calls = cl\<rparr>
        = read_done_loop conv envs (Suc 0) (Suc (Suc (Suc (Suc left))))
           \<lparr>statics = g,
            parser = \<lparr>state = TARGET, command = VALVE, target = 0, index = 0, values = [0, 0]\<rparr>,
            timeout = TIMEOUT_DELAY + time_us_64 (envs 0), calls = cl\<rparr>"
    unfolding static_parser_explicit by (rule feed_step[OF parse_V len(1) at(1)])
  also have "\<dots> = read_done_loop conv envs (Suc (Suc 0)) (Suc (Suc (Suc left)))
           \<lparr>statics = g,
            parser = \<lparr>state = NEXT_VALUE, command = VALVE, target = 0, index = 0, values = [0, 0]\<rparr>,
            timeout = TIMEOUT_DELAY + time_us_64 (envs (Suc 0)), calls = cl\<rparr>"
    by (rule feed_step[OF parse_target_0 len(2) at(2)])
  also have "\<dots> = read_done_loop conv envs (Suc (Suc (Suc 0))) (Suc (Suc left))
           \<lparr>statics = g,
            parser = \<lparr>state = VALUE, command = VALVE, target = 0, index = 0, values = [1, 0]\<rparr>,
            timeout = TIMEOUT_DELAY + time_us_64 (envs (Suc (Suc 0))), calls = cl\<rparr>"
    by (rule feed_step[OF parse_first_digit_1 len(3) at(3)])
  also have "\<dots> = read_done_loop conv envs (Suc (Suc (Suc (Suc 0)))) (Suc left)
           \<lparr>statics = g,
            parser = \<lparr>state = VALUE, command = VALVE, target = 0, index = 0, values = [10, 0]\<rparr>,
            timeout = TIMEOUT_DELAY + time_us_64 (envs (Suc (Suc (Suc 0)))), calls = cl\<rparr>"
    by (rule feed_step[OF parse_digit_0_after_1 len(4) at(4)])
  also have "\<dots> = read_done_loop conv envs (Suc (Suc (Suc (Suc (Suc 0))))) left
           \<lparr>statics = g,
            parser = \<lparr>state = VALUE, command = VALVE, target = 0, index = 0, values = [100, 0]\<rparr>,
            timeout = TIMEOUT_DELAY + time_us_64 (envs (Suc (Suc (Suc (Suc 0))))), calls = cl\<rparr>"
    by (rule feed_step[OF parse_digit_0_after_10 len(5) at(5)])
  finally show ?thesis unfolding four five .
qed


lemma write_span_queued:
  assumes "tx_sent (statics app) \<le> tx_index (statics app)"
  shows "write_span app = queued (statics app)"
  using assms
  by (simp add: write_span_def App_write_buffer_def Let_def queued_def not_less unat_sub)

lemma dispatch_valve0:
  assumes p: "state p = VALUE" "command p = VALVE" "target p = 0" "values p = v # vs"
    and c: "c \<noteq> ESC" "\<not> is_digit c" "c \<noteq> CHR '',''" "c \<noteq> CHR '':''"
    and ok: "ring_ok g"
  shows "\<exists>g'. App_parse conv env c \<lparr>statics = g, parser = p, timeout = T, calls = cl\<rparr>
                = Inr \<lparr>statics = g', parser = Parser_reset p,
                       timeout = TIMEOUT_DELAY + time_us_64 env,
                       calls = cl @ [Console_printf (''Valve target: %d pulse: %d'' @ CRLF)
                                       [VA_int 0, VA_int (ucast v)],
                                     Pulse Valve0 v]\<rparr>
           \<and> queued g' = queued g @ take (free g) (''AV0'' @ CRLF)
           \<and> tx_sent g' = tx_sent g \<and> ring_ok g' \<and> rx_buffer g' = rx_buffer g"
proof -
  have complete: "Parser_parse conv c p g = Inr (True, p, g)"
    using p(1) c by (simp add: Parser_parse_def)
  from respond_discard_pieces[OF ok render_AV0[of conv "conversion g"]]
  obtain g' where g': "respond_discard conv (''AV0'' @ CRLF) [] g = Inr g'" "ring_ok g'"
    "queued g' = queued g @ take (free g) (text_of
        [Literal (CHR ''A''), Literal (CHR ''V''), Literal (CHR ''0''),
         Literal (CHR 0x0D), Literal (CHR 0x0A)])"
    "tx_sent g' = tx_sent g" "rx_buffer g' = rx_buffer g"
    by blast
  have "App_parse conv env c \<lparr>statics = g, parser = p, timeout = T, calls = cl\<rparr>
          = Inr \<lparr>statics = g', parser = Parser_reset p,
                 timeout = TIMEOUT_DELAY + time_us_64 env,
                 calls = cl @ [Console_printf (''Valve target: %d pulse: %d'' @ CRLF)
                                 [VA_int 0, VA_int (ucast v)],
                               Pulse Valve0 v]\<rparr>"
    using complete p(2,3,4) g'(1)
    by (simp add: App_parse_def Let_def App_perform_command_def values_0_def log_call_def
          App_respond_def)
  moreover have "queued g' = queued g @ take (free g) (''AV0'' @ CRLF)"
    using g'(3) by (simp add: CRLF_def)
  ultimately show ?thesis using g'(2,4,5) by blast
qed

text \<open>
  Claim C1, as amended. Feeding the program, right after start-up, the bytes \<^verbatim>\<open>V0100\<close>
  followed by a terminator byte (any byte other than ESC, a digit, a comma or a colon, for
  instance CR): after \<^verbatim>\<open>V0100\<close> nothing is dispatched or queued and the parser holds VALVE,
  target 0 and values [100, 0]; on the terminator \<^verbatim>\<open>parse\<close> returns true, the VALVE command
  is dispatched (valve 0 is pulsed with 100), the bytes to send are \<^verbatim>\<open>AV0\r\n\<close>, and the
  parser is reset. This holds for any decoder and any answers of the collaborators.
\<close>

theorem valve_command_dispatch:
  assumes "t \<noteq> CHR 0x1B" and "\<not> is_digit t" and "t \<noteq> CHR '',''" and "t \<noteq> CHR '':''"
  shows "\<exists>app5 app6.
           App_read_done conv envs 5 (App_ctor (received (''V0100'' @ [t]) (static_globals cs)) static_parser)
             = Inr app5
         \<and> parser app5 = \<lparr>state = VALUE, command = VALVE, target = 0, index = 0, values = [100, 0]\<rparr>
         \<and> calls app5 = [] \<and> write_span app5 = []
         \<and> Parser_parse conv t (parser app5) (statics app5) = Inr (True, parser app5, statics app5)
         \<and> App_read_done conv envs 6 (App_ctor (received (''V0100'' @ [t]) (static_globals cs)) static_parser)
             = Inr app6
         \<and> calls app6 = [Console_printf (''Valve target: %d pulse: %d'' @ CRLF) [VA_int 0, VA_int 100],
                          Pulse Valve0 100]
         \<and> write_span app6 = ''AV0'' @ CRLF
         \<and> parser app6 = \<lparr>state = COMMAND, command = NONE, target = 0, index = 0, values = [0, 0]\<rparr>"
proof -
  define g0 where "g0 = (received (''V0100'' @ [t]) (static_globals cs))\<lparr>tx_index := 0, tx_sent := 0\<rparr>"
  define p5 where "p5 = \<lparr>state = VALUE, command = VALVE, target = 0, index = 0, values = [100, 0]\<rparr>"
  define app5 where "app5 = \<lparr>statics = g0, parser = p5,
                               timeout = TIMEOUT_DELAY + time_us_64 (envs 4), calls = []\<rparr>"
  have esc: "t \<noteq> ESC" using assms(1) by (simp add: ESC_def)
  have start: "App_ctor (received (''V0100'' @ [t]) (static_globals cs)) static_parser
                 = \<lparr>statics = g0, parser = static_parser, timeout = 0, calls = []\<rparr>"
    by (simp add: App_ctor_def g0_def)
  have rx: "rx_buffer g0 = ''V0100'' @ (t # replicate 59 (CHR 0x00))"
    by (simp add: g0_def received_rx)
  have g0: "ring_ok g0" "queued g0 = []" "free g0 = 2047" "tx_sent g0 = 0" "tx_index g0 = 0"
    by (simp_all add: g0_def received_def static_globals_def ring_ok_def queued_def free_def
          occupied_def output_bufferSIZE_def)
  have n5: "unat (5 :: 32 word) = Suc (Suc (Suc (Suc (Suc 0))))"
    and n6: "unat (6 :: 32 word) = Suc (Suc (Suc (Suc (Suc (Suc 0)))))"
    by simp_all
  have r5: "App_read_done conv envs 5 (App_ctor (received (''V0100'' @ [t]) (static_globals cs)) static_parser)
              = Inr app5"
    unfolding App_read_done_def n5 start feed_V0100[OF rx] app5_def p5_def by simp
  have complete: "Parser_parse conv t p5 g0 = Inr (True, p5, g0)"
    using esc assms(2,3,4) by (simp add: Parser_parse_def p5_def)
  have p5: "state p5 = VALUE" "command p5 = VALVE" "target p5 = 0" "values p5 = [100, 0]"
    by (simp_all add: p5_def)
  from dispatch_valve0[OF p5 esc assms(2,3,4) g0(1), of conv "envs 5" "TIMEOUT_DELAY + time_us_64 (envs 4)" "[]"]
  obtain g6 where g6: "App_parse conv (envs 5) t app5
        = Inr \<lparr>statics = g6, parser = Parser_reset p5,
               timeout = TIMEOUT_DELAY + time_us_64 (envs 5),
               calls = [] @ [Console_printf (''Valve target: %d pulse: %d'' @ CRLF)
                               [VA_int 0, VA_int (ucast (100 :: 16 word))],
                             Pulse Valve0 100]\<rparr>"
    "queued g6 = queued g0 @ take (free g0) (''AV0'' @ CRLF)" "tx_sent g6 = tx_sent g0"
    unfolding app5_def by blast
  define app6 where "app6 = \<lparr>statics = g6, parser = Parser_reset p5,
               timeout = TIMEOUT_DELAY + time_us_64 (envs 5),
               calls = [Console_printf (''Valve target: %d pulse: %d'' @ CRLF) [VA_int 0, VA_int 100],
                        Pulse Valve0 100]\<rparr>"
  have step: "App_parse conv (envs 5) t app5 = Inr app6"
    using g6(1) by (simp add: app6_def)
  have "read_done_loop conv envs 5 (Suc 0) app5 = Inr app6"
    using step rx by (simp add: app5_def)
  then have r6: "App_read_done conv envs 6 (App_ctor (received (''V0100'' @ [t]) (static_globals cs)) static_parser)
              = Inr app6"
    unfolding App_read_done_def n6 start feed_V0100[OF rx] app5_def p5_def .
  have span5: "write_span app5 = []"
    using write_span_queued[of app5] g0 by (simp add: app5_def)
  have "tx_sent (statics app6) \<le> tx_index (statics app6)"
    using g6(3) g0(4) by (simp add: app6_def)
  from write_span_queued[OF this] g6(2) g0
  have span6: "write_span app6 = ''AV0'' @ CRLF"
    by (simp add: app6_def CRLF_def)
  have "parser app6 = \<lparr>state = COMMAND, command = NONE, target = 0, index = 0, values = [0, 0]\<rparr>"
    by (simp add: app6_def p5_def Parser_reset_def)
  moreover have "calls app6 = [Console_printf (''Valve target: %d pulse: %d'' @ CRLF) [VA_int 0, VA_int 100],
                          Pulse Valve0 100]"
    by (simp add: app6_def)
  moreover have "parser app5 = \<lparr>state = VALUE, command = VALVE, target = 0, index = 0, values = [100, 0]\<rparr>"
    "calls app5 = []" "statics app5 = g0"
    by (simp_all add: app5_def p5_def)
  moreover have "Parser_parse conv t (parser app5) (statics app5) = Inr (True, parser app5, statics app5)"
    using complete by (simp add: app5_def)
  ultimately show ?thesis using r5 r6 span5 span6 by blast
qed

text \<open>The terminator CR.\<close>

theorem valve_command_dispatch_witness:
  "CHR 0x0D \<noteq> CHR 0x1B \<and> \<not> is_digit (CHR 0x0D) \<and> CHR 0x0D \<noteq> CHR '','' \<and> CHR 0x0D \<noteq> CHR '':''
   \<and> (\<exists>app6.
         App_read_done (spec_conversion no_double) always_idle 6
           (App_ctor (received (''V0100'' @ [CHR 0x0D]) (static_globals ())) static_parser)
           = Inr app6
       \<and> calls app6 = [Console_printf (''Valve target: %d pulse: %d'' @ CRLF) [VA_int 0, VA_int 100],
                        Pulse Valve0 100]
       \<and> write_span app6 = ''AV0'' @ CRLF
       \<and> parser app6 = \<lparr>state = COMMAND, command = NONE, target = 0, index = 0, values = [0, 0]\<rparr>)"
proof -
  have h: "CHR 0x0D \<noteq> CHR 0x1B" "\<not> is_digit (CHR 0x0D)" "CHR 0x0D \<noteq> CHR '',''"
    "CHR 0x0D \<noteq> CHR '':''"
    by (simp_all add: is_digit_def)
  from valve_command_dispatch[OF h, of "spec_conversion no_double" always_idle "()"] h
  show ?thesis by blast
qed

lemma read_V0100_comma_CR:
  "App_read_done (spec_conversion no_double) always_idle 7
     (App_ctor (received (''V0100,'' @ [CHR 0x0D]) (static_globals ())) static_parser)
     = Inr stuck_app"
proof -
  let ?conv = "spec_conversion no_double :: unit Conversion"
  define g0 :: "unit globals"
    where "g0 = (received (''V0100,'' @ [CHR 0x0D]) (static_globals ()))\<lparr>tx_index := 0, tx_sent := 0\<rparr>"
  have start: "App_ctor (received (''V0100,'' @ [CHR 0x0D]) (static_globals ())) static_parser
                 = \<lparr>statics = g0, parser = static_parser, timeout = 0, calls = []\<rparr>"
    by (simp add: App_ctor_def g0_def)
  have rx: "rx_buffer g0 = ''V0100'' @ (CHR '','' # CHR 0x0D # replicate 58 (CHR 0x00))"
    by (simp add: g0_def received_rx)
  have n7: "unat (7 :: 32 word) = Suc (Suc (Suc (Suc (Suc (Suc (Suc 0))))))"
    by simp
  have len: "5 < length (rx_buffer g0)" "Suc 5 < length (rx_buffer g0)"
    and at: "rx_buffer g0 ! 5 = CHR '',''" "rx_buffer g0 ! Suc 5 = CHR 0x0D"
    by (simp_all add: rx)
  have cr: "Parser_parse ?conv (CHR 0x0D)
              \<lparr>state = NEXT_VALUE, command = VALVE, target = 0, index = 1, values = [100, 0]\<rparr> g0
            = Inr (False, \<lparr>state = NEXT_VALUE, command = VALVE, target = 0, index = 1, values = [100, 0]\<rparr>, g0)"
    by (rule parse_waiting_for_digit) (simp_all add: ESC_def is_digit_def)
  have "read_done_loop ?conv always_idle 0 (Suc (Suc (Suc (Suc (Suc (Suc (Suc 0)))))))
          \<lparr>statics = g0, parser = static_parser, timeout = 0, calls = []\<rparr>
        = read_done_loop ?conv always_idle 5 (Suc (Suc 0))
            \<lparr>statics = g0,
             parser = \<lparr>state = VALUE, command = VALVE, target = 0, index = 0, values = [100, 0]\<rparr>,
             timeout = TIMEOUT_DELAY + time_us_64 (always_idle 4), calls = []\<rparr>"
    by (rule feed_V0100[OF rx])
  also have "\<dots> = read_done_loop ?conv always_idle (Suc 5) (Suc 0)
            \<lparr>statics = g0,
             parser = \<lparr>state = NEXT_VALUE, command = VALVE, target = 0, index = 1, values = [100, 0]\<rparr>,
             timeout = TIMEOUT_DELAY + time_us_64 (always_idle 5), calls = []\<rparr>"
    by (rule feed_step[OF parse_comma_after_100 len(1) at(1)])
  also have "\<dots> = read_done_loop ?conv always_idle (Suc (Suc 5)) 0
            \<lparr>statics = g0,
             parser = \<lparr>state = NEXT_VALUE, command = VALVE, target = 0, index = 1, values = [100, 0]\<rparr>,
             timeout = TIMEOUT_DELAY + time_us_64 (always_idle (Suc 5)), calls = []\<rparr>"
    by (rule feed_step[OF cr len(2) at(2)])
  also have "\<dots> = Inr stuck_app"
    by (simp add: stuck_app_def g0_def)
  finally show ?thesis
    unfolding App_read_done_def n7 start .
qed

text \<open>
  Claim C1 as stated fails: with the comma, \<^verbatim>\<open>V0100,\<close> leaves the parser in state
  \<open>NEXT_VALUE\<close> (index 1 is within bounds), where every byte that is neither ESC nor a digit
  is ignored. After \<^verbatim>\<open>V0100,\<close> and CR no command is dispatched and no response is queued.
\<close>

theorem comma_then_terminator_waits:
  "App_read_done (spec_conversion no_double) always_idle 7
     (App_ctor (received (''V0100,'' @ [CHR 0x0D]) (static_globals ())) static_parser)
     = Inr stuck_app
   \<and> calls stuck_app = [] \<and> write_span stuck_app = []
   \<and> state (parser stuck_app) = NEXT_VALUE \<and> command (parser stuck_app) = VALVE"
proof -
  have "tx_sent (statics stuck_app) \<le> tx_index (statics stuck_app)"
    by (simp add: stuck_app_def)
  from write_span_queued[OF this] have "write_span stuck_app = []"
    by (simp add: stuck_app_def queued_def)
  with read_V0100_comma_CR show ?thesis by (simp add: stuck_app_def)
qed

section \<open>The index of the parser\<close>

subsection \<open>What parse, dispatch and the read loop keep\<close>















end
